theory Spec2Isabelle
  imports Main "HOL-Library.Sublist"
begin

section \<open>Python strings\<close>

text \<open>
  A Python \<open>str\<close> is a sequence of Unicode code points. The source uses characters
  outside ASCII (the bullet U+1F538, the brackets U+27E8 and U+27E9 of the placeholder
  tokens), and its regular expressions work on code points, so a string is modelled
  as a list of code-point numbers.
\<close>

type_synonym py_char = nat
type_synonym py_str = "py_char list"

definition asc :: "string \<Rightarrow> py_str" where
  "asc s = map of_char s"

text \<open>
  \<open>str.isspace\<close> on one character; the class \<open>\s\<close> of \<open>re\<close> on \<open>str\<close> patterns and
  \<open>str.strip()\<close> use the same set of code points.
\<close>

definition isspace :: "py_char \<Rightarrow> bool" where
  "isspace c \<longleftrightarrow>
     (9 \<le> c \<and> c \<le> 13) \<or> (28 \<le> c \<and> c \<le> 32) \<or> c = 133 \<or> c = 160 \<or> c = 5760 \<or>
     (8192 \<le> c \<and> c \<le> 8202) \<or> c = 8232 \<or> c = 8233 \<or> c = 8239 \<or> c = 8287 \<or>
     c = 12288"

definition strip :: "py_str \<Rightarrow> py_str" where
  "strip s = rev (dropWhile isspace (rev (dropWhile isspace s)))"

section \<open>Regular expressions with the backtracking order of \<open>re\<close>\<close>

text \<open>
  The fragment of \<open>re\<close> syntax that the source uses: one character of a class, the
  empty pattern, sequence, the greedy option \<open>(?:r)?\<close>, the greedy and the lazy
  repetition of a character class (\<open>c*\<close>, \<open>c*?\<close>) and the anchor \<open>$\<close>.
\<close>

datatype regex =
    RChar "py_char \<Rightarrow> bool"
  | REmpty
  | RSeq regex regex
  | ROpt regex
  | RStar "py_char \<Rightarrow> bool"
  | RLazy "py_char \<Rightarrow> bool"
  | REnd

text \<open>
  \<open>matches r s\<close> lists, in the order in which the backtracking matcher tries them,
  the rests of \<open>s\<close> that remain after a match of \<open>r\<close> at the start of \<open>s\<close>. The match
  that \<open>re\<close> reports is the first one.
\<close>

fun matches :: "regex \<Rightarrow> py_str \<Rightarrow> py_str list" where
  "matches (RChar p) [] = []"
| "matches (RChar p) (c # cs) = (if p c then [cs] else [])"
| "matches REmpty s = [s]"
| "matches (RSeq a b) s = concat (map (matches b) (matches a s))"
| "matches (ROpt a) s = matches a s @ [s]"
| "matches (RStar p) [] = [[]]"
| "matches (RStar p) (c # cs) = (if p c then matches (RStar p) cs @ [c # cs] else [c # cs])"
| "matches (RLazy p) [] = [[]]"
| "matches (RLazy p) (c # cs) = (c # cs) # (if p c then matches (RLazy p) cs else [])"
| "matches REnd s = (if s = [] \<or> s = [10] then [s] else [])"

definition first_match :: "regex \<Rightarrow> py_str \<Rightarrow> py_str option" where
  "first_match r s = (case matches r s of [] \<Rightarrow> None | x # _ \<Rightarrow> Some x)"

text \<open>
  \<open>re.sub(pattern, repl, s)\<close> for a replacement without group references: scan from
  the left, replace the first match at the current position and continue behind it;
  an empty match is replaced and the scan copies one character.
\<close>

fun re_sub :: "regex \<Rightarrow> py_str \<Rightarrow> py_str \<Rightarrow> py_str" where
  "re_sub r repl [] = (case first_match r [] of None \<Rightarrow> [] | Some _ \<Rightarrow> repl)"
| "re_sub r repl (c # cs) =
     (case first_match r (c # cs) of
        None \<Rightarrow> c # re_sub r repl cs
      | Some rest \<Rightarrow>
          if length rest \<le> length cs then repl @ re_sub r repl rest
          else repl @ c # re_sub r repl cs)"

subsection \<open>Building patterns\<close>

definition seqs :: "regex list \<Rightarrow> regex" where
  "seqs rs = foldr RSeq rs REmpty"

definition chr :: "py_char \<Rightarrow> regex" where
  "chr c = RChar (\<lambda>x. x = c)"

definition lit :: "py_str \<Rightarrow> regex" where
  "lit w = seqs (map chr w)"

text \<open>
  A lower-case pattern character under \<open>re.IGNORECASE\<close>: it matches itself, its
  upper-case form, and for \<open>i\<close>, \<open>k\<close> and \<open>s\<close> the other characters that lower-case
  to it or that \<open>re\<close> treats as equivalent (U+0130, U+0131, U+212A, U+017F).
\<close>

definition icase :: "py_char \<Rightarrow> py_char \<Rightarrow> bool" where
  "icase c x \<longleftrightarrow>
     x = c \<or> (97 \<le> c \<and> c \<le> 122 \<and> x + 32 = c) \<or>
     (c = 105 \<and> (x = 304 \<or> x = 305)) \<or> (c = 107 \<and> x = 8490) \<or> (c = 115 \<and> x = 383)"

definition ichr :: "py_char \<Rightarrow> regex" where
  "ichr c = RChar (icase c)"

definition ilit :: "py_str \<Rightarrow> regex" where
  "ilit w = seqs (map ichr w)"

definition many1 :: "(py_char \<Rightarrow> bool) \<Rightarrow> regex" where
  "many1 p = RSeq (RChar p) (RStar p)"

definition anychar :: "py_char \<Rightarrow> bool" where
  "anychar c = True"

definition not_gt :: "py_char \<Rightarrow> bool" where
  "not_gt c \<longleftrightarrow> c \<noteq> 62"

definition isdot :: "py_char \<Rightarrow> bool" where
  "isdot c \<longleftrightarrow> c = 46"

text \<open>\<open>str.replace(old, new)\<close>: the non-overlapping occurrences from the left.\<close>

definition replace :: "py_str \<Rightarrow> py_str \<Rightarrow> py_str \<Rightarrow> py_str" where
  "replace old new s = re_sub (lit old) new s"

section \<open>The patterns of \<open>process_text_for_tts\<close>\<close>

definition bullet :: py_char where
  "bullet = 128312"

definition LONG_PAUSE :: py_str where
  "LONG_PAUSE = 10216 # asc ''LONG_PAUSE'' @ [10217]"

definition MED_PAUSE :: py_str where
  "MED_PAUSE = 10216 # asc ''MED_PAUSE'' @ [10217]"

text \<open>\<open>(?:<[^>]*>)?\<close>\<close>
definition re_opt_tag :: regex where
  "re_opt_tag = ROpt (seqs [ichr 60, RStar not_gt, ichr 62])"

text \<open>\<open><br\s*/?>\<close> with IGNORECASE\<close>
definition re_br :: regex where
  "re_br = seqs [ilit (asc ''<br''), RStar isspace, ROpt (ichr 47), ichr 62]"

text \<open>\<open><br\s*/?>\s*<br\s*/?>\<close> with IGNORECASE\<close>
definition re_br_br :: regex where
  "re_br_br = seqs [re_br, RStar isspace, re_br]"

text \<open>\<open>(?:<[^>]*>)?\<bullet>.*?<br\s*/?>\s*<br\s*/?>\<close> with IGNORECASE and DOTALL\<close>
definition re_bullet_block :: regex where
  "re_bullet_block = seqs [re_opt_tag, ichr bullet, RLazy anychar, re_br_br]"

text \<open>\<open>(?:<[^>]*>)?\<bullet>.*$\<close> with IGNORECASE and DOTALL\<close>
definition re_bullet_tail :: regex where
  "re_bullet_tail = seqs [re_opt_tag, ichr bullet, RStar anychar, REnd]"

text \<open>\<open></li>\s*<li[^>]*>\<close> with IGNORECASE\<close>
definition re_li_li :: regex where
  "re_li_li = seqs [ilit (asc ''</li>''), RStar isspace, ilit (asc ''<li''), RStar not_gt, ichr 62]"

text \<open>\<open></?li[^>]*>\<close>, \<open></?ul[^>]*>\<close>, \<open></?ol[^>]*>\<close>, \<open></?div[^>]*>\<close> with IGNORECASE\<close>
definition re_tag :: "string \<Rightarrow> regex" where
  "re_tag name = seqs [ichr 60, ROpt (ichr 47), ilit (asc name), RStar not_gt, ichr 62]"

text \<open>\<open></div>\s*<div[^>]*>\<close> with IGNORECASE\<close>
definition re_div_div :: regex where
  "re_div_div = seqs [ilit (asc ''</div>''), RStar isspace, ilit (asc ''<div''), RStar not_gt, ichr 62]"

text \<open>\<open><[^>]+>\<close>\<close>
definition re_any_tag :: regex where
  "re_any_tag = seqs [chr 60, many1 not_gt, chr 62]"

text \<open>\<open>\s*\|\s*\<close>, \<open>\s*<\s*\<close>, \<open>\s*>\s*\<close>\<close>
definition re_spaced :: "py_char \<Rightarrow> regex" where
  "re_spaced c = seqs [RStar isspace, chr c, RStar isspace]"

text \<open>\<open>\s+-\s+\<close>\<close>
definition re_dash :: regex where
  "re_dash = seqs [many1 isspace, chr 45, many1 isspace]"

text \<open>\<open>\r?\n+\<close>\<close>
definition re_newlines :: regex where
  "re_newlines = seqs [ROpt (chr 13), many1 (\<lambda>x. x = 10)]"

text \<open>\<open>\.{4,}\<close>, \<open>\.{3}\<close>, \<open>\.{2}\<close>\<close>
definition re_dots4 :: regex where
  "re_dots4 = seqs [chr 46, chr 46, chr 46, chr 46, RStar isdot]"

definition re_dots3 :: regex where
  "re_dots3 = lit (asc ''...'')"

definition re_dots2 :: regex where
  "re_dots2 = lit (asc ''..'')"

text \<open>\<open>\s+\<close>\<close>
definition re_spaces :: regex where
  "re_spaces = many1 isspace"

section \<open>The passes of \<open>process_text_for_tts\<close>\<close>

text \<open>FIRST: remove the bullet content, up to a double break or to the end of the text.\<close>

definition remove_bullets :: "py_str \<Rightarrow> py_str" where
  "remove_bullets t = re_sub re_bullet_tail [] (re_sub re_bullet_block [] t)"

text \<open>SECOND: the table \<open>html_entities\<close>, in the order of the dictionary.\<close>

definition html_entities :: "(py_str \<times> py_str) list" where
  "html_entities =
    [(asc ''&nbsp;'', asc '' ''),
     (asc ''&amp;'', asc ''&''),
     (asc ''&quot;'', [34]),
     (asc ''&apos;'', [39]),
     (asc ''&#39;'', [39]),
     (asc ''&mdash;'', [8212]),
     (asc ''&ndash;'', [8211]),
     (asc ''&hellip;'', asc ''...''),
     (asc ''&rsquo;'', [39]),
     (asc ''&lsquo;'', [39]),
     (asc ''&rdquo;'', [34]),
     (asc ''&ldquo;'', [34])]"

definition decode_entities :: "py_str \<Rightarrow> py_str" where
  "decode_entities t = foldl (\<lambda>text (entity, replacement). replace entity replacement text) t html_entities"

text \<open>THIRD: breaks, list items and divs become pauses or spaces.\<close>

definition html_pauses :: "py_str \<Rightarrow> py_str" where
  "html_pauses t =
    (let t = re_sub re_br_br (asc '' ... '') t;
         t = re_sub re_br (asc '' .. '') t;
         t = re_sub re_li_li (asc '' .. '') t;
         t = re_sub (re_tag ''li'') (asc '' '') t;
         t = re_sub (re_tag ''ul'') (asc '' '') t;
         t = re_sub (re_tag ''ol'') (asc '' '') t;
         t = re_sub re_div_div (asc '' .. '') t;
         t = re_sub (re_tag ''div'') (asc '' '') t
     in t)"

text \<open>FOURTH: strip the remaining tags.\<close>

definition strip_tags :: "py_str \<Rightarrow> py_str" where
  "strip_tags t = re_sub re_any_tag [] t"

text \<open>FIFTH: the entities of the angle brackets.\<close>

definition decode_angle :: "py_str \<Rightarrow> py_str" where
  "decode_angle t = replace (asc ''&gt;'') (asc ''>'') (replace (asc ''&lt;'') (asc ''<'') t)"

text \<open>SIXTH: pipes, dashes between spaces, angle brackets and line breaks.\<close>

definition pipes :: "py_str \<Rightarrow> py_str" where
  "pipes t = re_sub (re_spaced 124) (asc '', '') t"

definition dashes :: "py_str \<Rightarrow> py_str" where
  "dashes t = re_sub re_dash (asc '', '') t"

definition angle_brackets :: "py_str \<Rightarrow> py_str" where
  "angle_brackets t = re_sub (re_spaced 62) (asc '', '') (re_sub (re_spaced 60) (asc '', '') t)"

definition linebreaks :: "py_str \<Rightarrow> py_str" where
  "linebreaks t = re_sub re_newlines (asc '' ... '') t"

text \<open>The runs of dots: placeholders first, the final pauses afterwards.\<close>

definition dot_placeholders :: "py_str \<Rightarrow> py_str" where
  "dot_placeholders t =
     re_sub re_dots2 MED_PAUSE (re_sub re_dots3 LONG_PAUSE (re_sub re_dots4 LONG_PAUSE t))"

definition resolve_placeholders :: "py_str \<Rightarrow> py_str" where
  "resolve_placeholders t =
     re_sub (lit MED_PAUSE) (asc '' .. '') (re_sub (lit LONG_PAUSE) (asc '' ... '') t)"

definition dot_pauses :: "py_str \<Rightarrow> py_str" where
  "dot_pauses t = resolve_placeholders (dot_placeholders t)"

text \<open>SEVENTH: whitespace.\<close>

definition collapse_spaces :: "py_str \<Rightarrow> py_str" where
  "collapse_spaces t = re_sub re_spaces (asc '' '') t"

definition clean_whitespace :: "py_str \<Rightarrow> py_str" where
  "clean_whitespace t = strip (collapse_spaces t)"

text \<open>All passes from \<open>text.strip()\<close> to the last \<open>strip()\<close>, in the order of the source.\<close>

definition passes_before_dots :: "py_str \<Rightarrow> py_str" where
  "passes_before_dots text =
     linebreaks (angle_brackets (dashes (pipes (decode_angle (strip_tags
       (html_pauses (decode_entities (remove_bullets (strip text)))))))))"

definition normalize_passes :: "py_str \<Rightarrow> py_str" where
  "normalize_passes text = clean_whitespace (dot_pauses (passes_before_dots text))"

section \<open>Values, configuration and the outside world\<close>

text \<open>
  The argument of \<open>process_text_for_tts\<close> can be any Python value: \<open>None\<close>, a boolean, an
  integer, a string, a list, or an object of another class. Of such an object the code
  only takes the truth value, so it is given by what its truth test (\<open>__bool__\<close>, or
  \<open>__len__\<close>) answers, \<open>None\<close> when the truth test raises.
\<close>

datatype pyval =
  PyNone | PyBool bool | PyInt int | PyStr py_str | PyList "pyval list" | PyObject "bool option"

datatype exn = OSError | TruthTestRaised

text \<open>\<open>bool(text)\<close>, which \<open>not text\<close> evaluates; it can raise.\<close>

fun truthy :: "pyval \<Rightarrow> exn + bool" where
  "truthy PyNone = Inr False"
| "truthy (PyBool b) = Inr b"
| "truthy (PyInt i) = Inr (i \<noteq> 0)"
| "truthy (PyStr s) = Inr (s \<noteq> [])"
| "truthy (PyList xs) = Inr (xs \<noteq> [])"
| "truthy (PyObject None) = Inl TruthTestRaised"
| "truthy (PyObject (Some b)) = Inr b"

fun isinstance_str :: "pyval \<Rightarrow> bool" where
  "isinstance_str (PyStr s) = True"
| "isinstance_str v = False"

fun str_of :: "pyval \<Rightarrow> py_str" where
  "str_of (PyStr s) = s"
| "str_of v = []"

text \<open>
  The speech rate is a configuration value, by default the float \<open>0.8\<close>. The code
  does two things with it: it compares it with \<open>1.0\<close> and it formats it into an
  f-string. The value is modelled by these two observations.
\<close>

record rate =
  differs_from_one :: bool
  formatted :: py_str

definition default_speech_rate :: rate where
  "default_speech_rate = \<lparr>differs_from_one = True, formatted = asc ''0.8''\<rparr>"

definition neutral_speech_rate :: rate where
  "neutral_speech_rate = \<lparr>differs_from_one = False, formatted = asc ''1.0''\<rparr>"

text \<open>The attributes of a \<open>SpeechifyTTSProcessor\<close> that the methods below read.\<close>

record processor =
  debug_mode :: bool
  enabled :: bool
  max_chars :: int
  api_key :: py_str
  voice_id :: py_str
  tts_model :: py_str
  language_code :: py_str
  audio_format :: py_str
  loudness_normalization :: bool
  text_normalization :: bool
  speech_rate :: rate

text \<open>
  The configuration dictionary, one optional entry for each key that \<open>__init__\<close>
  reads with \<open>config.get(key, default)\<close>.
\<close>

record config =
  cfg_debug_mode :: "bool option"
  cfg_tts_enabled :: "bool option"
  cfg_tts_max_chars :: "int option"
  cfg_speechify_api_key :: "py_str option"
  cfg_speechify_voice_id :: "py_str option"
  cfg_speechify_model :: "py_str option"
  cfg_speechify_language_code :: "py_str option"
  cfg_speechify_audio_format :: "py_str option"
  cfg_speechify_loudness_normalization :: "bool option"
  cfg_speechify_text_normalization :: "bool option"
  cfg_elevenlabs_speech_rate :: "rate option"

definition get_or :: "'a option \<Rightarrow> 'a \<Rightarrow> 'a" where
  "get_or v d = (case v of None \<Rightarrow> d | Some x \<Rightarrow> x)"

text \<open>
  \<open>__init__\<close>, given whether the \<open>speechify\<close> library could be imported. Every entry
  of \<open>norwegian_voices\<close> is \<open>scott\<close>, so the voice id that is empty or \<open>scott\<close>
  becomes \<open>scott\<close> whatever the voice name is. The notifications of \<open>__init__\<close> are
  left out.
\<close>

definition init :: "bool \<Rightarrow> config \<Rightarrow> processor" where
  "init speechify_available c =
    (let vid = get_or (cfg_speechify_voice_id c) (asc ''scott'') in
     \<lparr>debug_mode = get_or (cfg_debug_mode c) False,
      enabled = (get_or (cfg_tts_enabled c) True \<and> speechify_available),
      max_chars = get_or (cfg_tts_max_chars c) 40000,
      api_key = get_or (cfg_speechify_api_key c) [],
      voice_id = (if vid = [] \<or> vid = asc ''scott'' then asc ''scott'' else vid),
      tts_model = get_or (cfg_speechify_model c) (asc ''simba-multilingual''),
      language_code = get_or (cfg_speechify_language_code c) (asc ''nb-NO''),
      audio_format = get_or (cfg_speechify_audio_format c) (asc ''mp3''),
      loudness_normalization = get_or (cfg_speechify_loudness_normalization c) True,
      text_normalization = get_or (cfg_speechify_text_normalization c) True,
      speech_rate = get_or (cfg_elevenlabs_speech_rate c) default_speech_rate\<rparr>)"

definition empty_config :: config where
  "empty_config =
    \<lparr>cfg_debug_mode = None, cfg_tts_enabled = None, cfg_tts_max_chars = None,
     cfg_speechify_api_key = None, cfg_speechify_voice_id = None, cfg_speechify_model = None,
     cfg_speechify_language_code = None, cfg_speechify_audio_format = None,
     cfg_speechify_loudness_normalization = None, cfg_speechify_text_normalization = None,
     cfg_elevenlabs_speech_rate = None\<rparr>"

text \<open>
  The note of the editor: its fields in order, each with its name. \<open>note.fields[i]\<close>
  is the value of the \<open>i\<close>-th field, \<open>name in note\<close> asks for a field of that name
  and \<open>note[name] = v\<close> stores into it.
\<close>

type_synonym anki_note = "(py_str \<times> py_str) list"

type_synonym path = "py_str \<times> py_str"

datatype severity = Info | Critical

datatype log_line = Original py_str pyval | Processed py_str py_str

text \<open>The request that \<open>create_audio_file\<close> sends to the vendor.\<close>

record tts_request =
  req_audio_format :: py_str
  req_input :: py_str
  req_language :: py_str
  req_model :: py_str
  req_loudness_normalization :: bool
  req_text_normalization :: bool
  req_voice_id :: py_str

text \<open>
  Everything outside the processor. The first group is state that the methods change:
  the note held by the editor (\<open>None\<close> when the editor has no note), the files of the
  temporary directory, the media collection, the debug log and the notifications
  shown. The second group is what the outside answers: whether the libraries are
  there, the clock, the answer of the vendor to a request (\<open>None\<close> when the call or
  the decoding raises), and whether writing, registering, reloading and removing
  succeed.
\<close>

record world =
  ed_note :: "anki_note option"
  files :: "path \<rightharpoonup> nat list"
  media :: "py_str list"
  log_file :: "log_line list"
  shown :: "(severity \<times> string) list"
  speechify_available :: bool
  anki_available :: bool
  mw_col :: bool
  editor_has_loadNote :: bool
  log_timestamp :: py_str
  file_timestamp :: py_str
  temp_dir :: py_str
  log_writable :: bool
  vendor :: "tts_request \<Rightarrow> nat list option"
  temp_writable :: bool
  media_addFile :: "path \<Rightarrow> py_str option"
  loadNote_raises :: bool
  remove_raises :: bool

definition showInfo :: "string \<Rightarrow> world \<Rightarrow> world" where
  "showInfo msg w = w\<lparr>shown := shown w @ [(Info, msg)]\<rparr>"

definition showCritical :: "string \<Rightarrow> world \<Rightarrow> world" where
  "showCritical msg w = w\<lparr>shown := shown w @ [(Critical, msg)]\<rparr>"

section \<open>\<open>process_text_for_tts\<close>\<close>

text \<open>
  The debug log: both lines are appended, or a file operation raises. The caller
  swallows the exception with its bare \<open>except\<close>.
\<close>

definition write_log :: "pyval \<Rightarrow> py_str \<Rightarrow> world \<Rightarrow> exn + world" where
  "write_log text input_text w =
    (if log_writable w
     then Inr (w\<lparr>log_file := log_file w @
             [Original (log_timestamp w) text, Processed (log_timestamp w) input_text]\<rparr>)
     else Inl OSError)"

definition prosody :: "py_str \<Rightarrow> py_str \<Rightarrow> py_str" where
  "prosody r input_text =
     asc ''<prosody rate='' @ [34] @ r @ [34] @ asc ''>'' @ input_text @ asc ''</prosody>''"

text \<open>
  The result is the string returned or the exception raised, and the world afterwards.
  The guard \<open>if not text or not isinstance(text, str)\<close> takes the truth value of the
  argument first; an exception of that truth test leaves the function.
\<close>

definition process_text_for_tts ::
  "processor \<Rightarrow> world \<Rightarrow> pyval \<Rightarrow> (exn + py_str) \<times> world" where
  "process_text_for_tts self w text =
    (case truthy text of
       Inl e \<Rightarrow> (Inl e, w)
     | Inr true \<Rightarrow>
         if \<not> true \<or> \<not> isinstance_str text then (Inr [], w)
         else
           let input_text = normalize_passes (str_of text);
               w = (if debug_mode self
                    then (case write_log text input_text w of Inl e \<Rightarrow> w | Inr w' \<Rightarrow> w')
                    else w);
               input_text = (if differs_from_one (speech_rate self)
                             then prosody (formatted (speech_rate self)) input_text
                             else input_text)
           in (Inr (if input_text = [] then [] else input_text), w))"

section \<open>The methods around the note\<close>

definition get_field_content :: "world \<Rightarrow> py_str" where
  "get_field_content w =
    (case ed_note w of
       None \<Rightarrow> []
     | Some n \<Rightarrow> if length n > 1 then snd (n ! 1) else [])"

definition audio_fields :: "py_str list" where
  "audio_fields = [asc ''Audio'', asc ''audio'', asc ''Sound'', asc ''sound'']"

definition has_field :: "py_str \<Rightarrow> anki_note \<Rightarrow> bool" where
  "has_field f n \<longleftrightarrow> f \<in> set (map fst n)"

definition set_field :: "py_str \<Rightarrow> py_str \<Rightarrow> anki_note \<Rightarrow> anki_note" where
  "set_field f v n = map (\<lambda>(k, x). if k = f then (k, v) else (k, x)) n"

text \<open>The loop over \<open>audio_fields\<close> with its \<open>break\<close>: the first name that the note has.\<close>

definition first_audio_field :: "anki_note \<Rightarrow> py_str option" where
  "first_audio_field n = find (\<lambda>f. has_field f n) audio_fields"

definition clear_audio_field :: "world \<Rightarrow> world" where
  "clear_audio_field w =
    (case ed_note w of
       None \<Rightarrow> w
     | Some n \<Rightarrow>
        (case first_audio_field n of
           None \<Rightarrow> w
         | Some f \<Rightarrow> w\<lparr>ed_note := Some (set_field f [] n)\<rparr>))"

definition create_audio_file :: "processor \<Rightarrow> world \<Rightarrow> py_str \<Rightarrow> path option \<times> world" where
  "create_audio_file self w text =
    (if \<not> enabled self \<or> \<not> speechify_available w then (None, w)
     else
       (case process_text_for_tts self w (PyStr text) of
          (Inl e, w) \<Rightarrow> (None, showCritical ''Error creating Speechify TTS audio'' w)
        | (Inr processed_text, w) \<Rightarrow>
            if processed_text = [] \<or> strip processed_text = [] then (None, w)
            else
              (case vendor w \<lparr>req_audio_format = audio_format self, req_input = processed_text,
                               req_language = language_code self, req_model = tts_model self,
                               req_loudness_normalization = loudness_normalization self,
                               req_text_normalization = text_normalization self,
                               req_voice_id = voice_id self\<rparr> of
                 None \<Rightarrow> (None, showCritical ''Error creating Speechify TTS audio'' w)
               | Some audio_bytes \<Rightarrow>
                   let filename = asc ''inferanki-speechify-tts-'' @ file_timestamp w @ asc ''.''
                                    @ audio_format self;
                       temp_path = (temp_dir w, filename)
                   in if temp_writable w
                      then (Some temp_path, w\<lparr>files := (files w)(temp_path \<mapsto> audio_bytes)\<rparr>)
                      else (None, showCritical ''Error creating Speechify TTS audio'' w))))"

definition add_audio_to_note :: "world \<Rightarrow> path \<Rightarrow> bool \<times> world" where
  "add_audio_to_note w audio_path =
    (if files w audio_path = None then (False, showCritical ''Audio file not found'' w)
     else
       let filename = snd audio_path in
       (case (if mw_col w
              then (case media_addFile w audio_path of
                      None \<Rightarrow> None
                    | Some name \<Rightarrow> Some (name, w\<lparr>media := media w @ [name]\<rparr>))
              else Some (filename, showInfo ''TEST MODE: Would add audio file'' w)) of
          None \<Rightarrow> (False, showCritical ''Error adding audio to note'' w)
        | Some (media_name, w) \<Rightarrow>
            (case ed_note w of
               None \<Rightarrow> (False, w)
             | Some n \<Rightarrow>
                (case first_audio_field n of
                   Some f \<Rightarrow>
                     (True, w\<lparr>ed_note := Some (set_field f (asc ''[sound:'' @ media_name @ asc '']'') n)\<rparr>)
                 | None \<Rightarrow> (False, showCritical ''No audio field found'' w)))))"

definition process_text :: "processor \<Rightarrow> world \<Rightarrow> bool \<times> world" where
  "process_text self w =
    (if \<not> enabled self then (False, showInfo ''Speechify TTS is disabled in configuration'' w)
     else if \<not> speechify_available w
     then (False, showCritical ''Speechify TTS requires speechify-api library'' w)
     else if api_key self = [] \<or> api_key self = asc ''your-api-key-here''
     then (False, showCritical ''Speechify API key not configured'' w)
     else
       let text = get_field_content w in
       if text = [] \<or> strip text = [] then (False, showInfo ''Field 2 (index 1) is empty'' w)
       else if int (length text) > max_chars self then (False, showCritical ''Text too long'' w)
       else
         let w = clear_audio_field w;
             (audio_path, w) = create_audio_file self w text
         in (case audio_path of
               None \<Rightarrow> (False, showCritical ''Failed to create audio file'' w)
             | Some p \<Rightarrow>
                 let (success, w) = add_audio_to_note w p in
                 if success
                 then if anki_available w \<and> editor_has_loadNote w \<and> loadNote_raises w
                      then (False, showCritical ''Speechify TTS processing error'' w)
                      else (True, if remove_raises w then w else w\<lparr>files := (files w)(p := None)\<rparr>)
                 else (False, showCritical ''Failed to add audio to note'' w)))"

section \<open>A configuration and a world for examples\<close>

text \<open>The configuration of the test suite (\<open>test_speechify.py\<close>, \<open>setUp\<close>).\<close>

definition test_config :: config where
  "test_config =
    \<lparr>cfg_debug_mode = Some False, cfg_tts_enabled = Some True, cfg_tts_max_chars = Some 40000,
     cfg_speechify_api_key = Some (asc ''test_api_key''),
     cfg_speechify_voice_id = Some (asc ''scott''),
     cfg_speechify_model = Some (asc ''simba-multilingual''),
     cfg_speechify_language_code = Some (asc ''nb-NO''),
     cfg_speechify_audio_format = Some (asc ''mp3''),
     cfg_speechify_loudness_normalization = Some True,
     cfg_speechify_text_normalization = Some True,
     cfg_elevenlabs_speech_rate = Some default_speech_rate\<rparr>"

text \<open>
  A world outside Anki (\<open>mw = None\<close>), as in the test suite: the vendor answers every
  request with three bytes, all file operations succeed, and the note has a front, a
  back and an audio field.
\<close>

definition test_world :: world where
  "test_world =
    \<lparr>ed_note = Some [(asc ''Front'', asc ''hus''), (asc ''Back'', asc ''et hus - huset''),
                     (asc ''Audio'', asc ''[sound:old.mp3]'')],
     files = Map.empty, media = [], log_file = [], shown = [],
     speechify_available = True, anki_available = False, mw_col = False,
     editor_has_loadNote = False,
     log_timestamp = asc ''2025-01-01 12:00:00'', file_timestamp = asc ''250101-120000'',
     temp_dir = asc ''/tmp'', log_writable = True,
     vendor = (\<lambda>r. Some [73, 68, 51]), temp_writable = True,
     media_addFile = (\<lambda>p. Some (snd p)), loadNote_raises = False, remove_raises = False\<rparr>"

section \<open>Auxiliary notions for the proofs\<close>

text \<open>A pattern whose every match takes at least one character.\<close>

fun consuming :: "regex \<Rightarrow> bool" where
  "consuming (RChar p) = True"
| "consuming (RSeq a b) = (consuming a \<or> consuming b)"
| "consuming r = False"

text \<open>A pattern whose every match contains the character \<open>c\<close>.\<close>

fun must :: "py_char \<Rightarrow> regex \<Rightarrow> bool" where
  "must c (RChar p) = (\<forall>x. p x \<longrightarrow> x = c)"
| "must c (RSeq a b) = (must c a \<or> must c b)"
| "must c r = False"

text \<open>A text without the characters \<open><\<close> and \<open>>\<close>, and one without their entities.\<close>

definition no_angle :: "py_str \<Rightarrow> bool" where
  "no_angle s \<longleftrightarrow> 60 \<notin> set s \<and> 62 \<notin> set s"

definition no_angle_entity :: "py_str \<Rightarrow> bool" where
  "no_angle_entity s \<longleftrightarrow> \<not> sublist (asc ''&lt;'') s \<and> \<not> sublist (asc ''&gt;'') s"

text \<open>
  For the entities of the table: the characters of their names, a table of names over
  these characters with replacements outside them, the decoding of a table, and the
  text before the entity pass, after it, and before the remaining tags are removed.
\<close>

definition entity_char :: "py_char \<Rightarrow> bool" where
  "entity_char c \<longleftrightarrow> c = 35 \<or> c = 38 \<or> c = 51 \<or> c = 57 \<or> c = 59 \<or> (97 \<le> c \<and> c \<le> 122)"

definition decode_table :: "(py_str \<times> py_str) list \<Rightarrow> py_str \<Rightarrow> py_str" where
  "decode_table tab t = foldl (\<lambda>text (entity, replacement). replace entity replacement text) t tab"

definition entity_table :: "(py_str \<times> py_str) list \<Rightarrow> bool" where
  "entity_table tab \<longleftrightarrow>
     (\<forall>(e, r)\<in>set tab. e \<noteq> [] \<and> (\<forall>c\<in>set e. entity_char c) \<and> r \<noteq> [] \<and> (\<forall>c\<in>set r. \<not> entity_char c))"

definition text_before_entities :: "py_str \<Rightarrow> py_str" where
  "text_before_entities s = remove_bullets (strip s)"

definition text_after_entities :: "py_str \<Rightarrow> py_str" where
  "text_after_entities s = decode_entities (text_before_entities s)"

definition text_before_tag_removal :: "py_str \<Rightarrow> py_str" where
  "text_before_tag_removal s = html_pauses (text_after_entities s)"

text \<open>
  The borders of a text: the pattern \<open>r\<close> is local at the border between \<open>x\<close> and \<open>y\<close>
  when, from every position of \<open>x\<close>, it matches in \<open>x @ y\<close> exactly as it matches in \<open>x\<close>
  alone, so that no match reaches over the border.
\<close>

definition local_at :: "regex \<Rightarrow> py_str \<Rightarrow> py_str \<Rightarrow> bool" where
  "local_at r x y \<longleftrightarrow>
     (\<forall>t. t \<noteq> [] \<and> suffix t x \<longrightarrow>
        first_match r (t @ y) = map_option (\<lambda>u. u @ y) (first_match r t))"

text \<open>
  What the specification puts for a run of \<open>n\<close> dots: the long pause for three and more,
  the short pause for two, and a single dot as it is.
\<close>

definition pause_for_run :: "nat \<Rightarrow> py_str" where
  "pause_for_run n =
     (if 3 \<le> n then asc '' ... '' else if n = 2 then asc '' .. '' else replicate n 46)"

text \<open>
  For the dash pass. After the whitespace at the start of a match of \<open>\s+-\s+\<close>, the text
  must go on with a hyphen and a whitespace character; \<open>dash_tail\<close> gives the rest
  behind the match. A text ends with a pending dash when its last two characters are a
  whitespace character and a hyphen.
\<close>

definition dash_tail :: "py_str \<Rightarrow> py_str option" where
  "dash_tail w =
     (case w of
        e # f # z \<Rightarrow> if e = 45 \<and> isspace f then Some (dropWhile isspace z) else None
      | _ \<Rightarrow> None)"

definition dash_pending :: "py_str \<Rightarrow> bool" where
  "dash_pending x \<longleftrightarrow> (case rev x of a # b # _ \<Rightarrow> a = 45 \<and> isspace b | _ \<Rightarrow> False)"

section \<open>Properties of matching and substitution\<close>


lemma matches_suffix: "x \<in> set (matches r s) \<Longrightarrow> suffix x s"
proof (induction r s arbitrary: x rule: matches.induct)
  case (4 a b s)
  then obtain y where y: "y \<in> set (matches a s)" and x: "x \<in> set (matches b y)" by auto
  from 4 y x have "suffix y s" "suffix x y" by auto
  then show ?case using suffix_order.trans by blast
next
  case (7 p c cs)
  then show ?case by (auto simp: suffix_Cons split: if_splits)
next
  case (9 p c cs)
  then show ?case by (auto simp: suffix_Cons split: if_splits)
qed (auto simp: suffix_Cons split: if_splits)

lemma first_match_mem: "first_match r s = Some x \<Longrightarrow> x \<in> set (matches r s)"
  by (auto simp: first_match_def split: list.splits)

lemma first_match_suffix: "first_match r s = Some x \<Longrightarrow> suffix x s"
  by (rule matches_suffix) (rule first_match_mem)

lemma first_match_None: "first_match r s = None \<longleftrightarrow> matches r s = []"
  by (auto simp: first_match_def split: list.splits)


lemma matches_consuming: "consuming r \<Longrightarrow> x \<in> set (matches r s) \<Longrightarrow> length x < length s"
proof (induction r s arbitrary: x rule: matches.induct)
  case (4 a b s)
  then obtain y where y: "y \<in> set (matches a s)" and x: "x \<in> set (matches b y)" by auto
  have le: "length y \<le> length s" "length x \<le> length y"
    using matches_suffix[OF y] matches_suffix[OF x] by (auto simp: suffix_length_le)
  from 4(3) have "consuming a \<or> consuming b" by simp
  then show ?case
  proof
    assume "consuming a"
    with 4(1) y have "length y < length s" by blast
    with le show ?thesis by simp
  next
    assume "consuming b"
    with 4(2) y x have "length x < length y" by blast
    with le show ?thesis by simp
  qed
qed (auto split: if_splits)

lemma first_match_consuming:
  "consuming r \<Longrightarrow> first_match r s = Some x \<Longrightarrow> length x < length s"
  using matches_consuming first_match_mem by blast

lemma first_match_Nil: "consuming r \<Longrightarrow> first_match r [] = None"
  using first_match_consuming by (cases "first_match r []") fastforce+

lemma re_sub_Nil: "consuming r \<Longrightarrow> re_sub r repl [] = []"
  by (simp add: first_match_Nil)

lemma re_sub_Cons:
  "consuming r \<Longrightarrow> re_sub r repl (c # cs) =
     (case first_match r (c # cs) of
        None \<Rightarrow> c # re_sub r repl cs
      | Some rest \<Rightarrow> repl @ re_sub r repl rest)"
  by (auto split: option.splits dest: first_match_consuming)

lemma set_re_sub: "set (re_sub r repl s) \<subseteq> set s \<union> set repl"
proof (induction r repl s rule: re_sub.induct)
  case (1 r repl)
  then show ?case by (auto split: option.splits)
next
  case (2 r repl c cs)
  show ?case
  proof (cases "first_match r (c # cs)")
    case None
    with 2 show ?thesis by auto
  next
    case (Some rest)
    then have "set rest \<subseteq> set (c # cs)" using first_match_suffix set_mono_suffix by blast
    with 2 Some show ?thesis by (auto split: if_splits)
  qed
qed

lemma re_sub_no_char:
  assumes "consuming r" and "c \<notin> set repl"
    and "\<And>t. first_match r (c # t) \<noteq> None"
  shows "c \<notin> set (re_sub r repl s)"
proof (induction s rule: length_induct)
  case (1 s)
  show ?case
  proof (cases s)
    case Nil
    then show ?thesis using assms(1) by (simp add: re_sub_Nil del: re_sub.simps)
  next
    case (Cons d cs)
    show ?thesis
    proof (cases "first_match r (d # cs)")
      case None
      with assms(3)[of cs] have "d \<noteq> c" by auto
      moreover have "c \<notin> set (re_sub r repl cs)" using 1 Cons by simp
      ultimately show ?thesis using None Cons assms(1) by (simp add: re_sub_Cons del: re_sub.simps)
    next
      case (Some rest)
      then have "length rest < length s" using first_match_consuming assms(1) Cons by blast
      then have "c \<notin> set (re_sub r repl rest)" using 1 by blast
      then show ?thesis using Some Cons assms(1,2) by (simp add: re_sub_Cons del: re_sub.simps)
    qed
  qed
qed

lemma re_sub_id:
  assumes "consuming r" and "\<And>t. suffix t s \<Longrightarrow> first_match r t = None"
  shows "re_sub r repl s = s"
  using assms(2)
proof (induction s)
  case Nil
  then show ?case using assms(1) by (simp add: re_sub_Nil del: re_sub.simps)
next
  case (Cons c cs)
  have "first_match r (c # cs) = None" using Cons.prems by simp
  moreover have "re_sub r repl cs = cs"
    using Cons by (simp add: suffix_Cons)
  ultimately show ?case using assms(1) by (simp add: re_sub_Cons del: re_sub.simps)
qed


lemma matches_must:
  "must c r \<Longrightarrow> x \<in> set (matches r s) \<Longrightarrow> c \<in> set s"
proof (induction r s arbitrary: x rule: matches.induct)
  case (4 a b s)
  then obtain y where y: "y \<in> set (matches a s)" and x: "x \<in> set (matches b y)" by auto
  from 4(3) have "must c a \<or> must c b" by simp
  then show ?case
  proof
    assume "must c a"
    with 4(1) y show ?thesis by blast
  next
    assume "must c b"
    with 4(2) y x have "c \<in> set y" by blast
    then show ?thesis using matches_suffix[OF y] set_mono_suffix by blast
  qed
qed (auto split: if_splits)

lemma re_sub_id_must:
  assumes "consuming r" "must c r" "c \<notin> set s"
  shows "re_sub r repl s = s"
proof (rule re_sub_id[OF assms(1)])
  fix t assume "suffix t s"
  then have "c \<notin> set t" using assms(3) set_mono_suffix by blast
  then show "first_match r t = None"
    using matches_must[OF assms(2)] by (cases "first_match r t") (auto dest: first_match_mem)
qed

lemma matches_star_nonempty: "matches (RStar p) s \<noteq> []"
  by (induction s) auto

lemma set_strip: "set (strip s) \<subseteq> set s"
  by (auto simp: strip_def dest!: set_dropWhileD)

lemma re_sub_keeps_out: "c \<notin> set repl \<Longrightarrow> c \<notin> set s \<Longrightarrow> c \<notin> set (re_sub r repl s)"
  using set_re_sub by fastforce

lemma consuming_re_spaced: "consuming (re_spaced c)"
  by (simp add: re_spaced_def seqs_def chr_def)

lemma first_match_re_spaced: "\<not> isspace c \<Longrightarrow> first_match (re_spaced c) (c # t) \<noteq> None"
  by (simp add: first_match_None re_spaced_def seqs_def chr_def matches_star_nonempty)

lemma re_spaced_removes:
  "\<not> isspace c \<Longrightarrow> c \<notin> set repl \<Longrightarrow> c \<notin> set (re_sub (re_spaced c) repl s)"
  by (rule re_sub_no_char) (simp_all add: consuming_re_spaced first_match_re_spaced)

lemma asc_simps: "asc [] = []" "asc (x # xs) = of_char x # asc xs"
  by (simp_all add: asc_def)

lemma angle_brackets_none: "60 \<notin> set (angle_brackets t) \<and> 62 \<notin> set (angle_brackets t)"
proof -
  have a: "60 \<notin> set (re_sub (re_spaced 60) (asc '', '') t)"
    by (rule re_spaced_removes) (simp_all add: isspace_def asc_simps)
  have "60 \<notin> set (angle_brackets t)"
    unfolding angle_brackets_def by (rule re_sub_keeps_out) (use a in \<open>simp_all add: asc_simps\<close>)
  moreover have "62 \<notin> set (angle_brackets t)"
    unfolding angle_brackets_def by (rule re_spaced_removes) (simp_all add: isspace_def asc_simps)
  ultimately show ?thesis ..
qed


lemma no_angle_re_sub: "no_angle repl \<Longrightarrow> no_angle s \<Longrightarrow> no_angle (re_sub r repl s)"
  unfolding no_angle_def using re_sub_keeps_out by blast

lemma no_angle_strip: "no_angle s \<Longrightarrow> no_angle (strip s)"
  unfolding no_angle_def using set_strip by blast

lemma no_angle_consts:
  "no_angle (asc '' ... '')" "no_angle (asc '' .. '')" "no_angle (asc '' '')" "no_angle (asc '', '')"
  "no_angle LONG_PAUSE" "no_angle MED_PAUSE"
  by (simp_all add: no_angle_def asc_simps LONG_PAUSE_def MED_PAUSE_def)

lemma no_angle_normalize_passes: "no_angle (normalize_passes t)"
proof -
  have "no_angle (angle_brackets u)" for u
    using angle_brackets_none by (simp add: no_angle_def)
  then have "no_angle (passes_before_dots t)"
    unfolding passes_before_dots_def linebreaks_def by (intro no_angle_re_sub no_angle_consts)
  then show ?thesis
    unfolding normalize_passes_def clean_whitespace_def collapse_spaces_def dot_pauses_def
      resolve_placeholders_def dot_placeholders_def
    by (intro no_angle_strip no_angle_re_sub no_angle_consts)
qed

lemma lit_Nil: "lit [] = REmpty"
  by (simp add: lit_def seqs_def)

lemma lit_Cons: "lit (c # w) = RSeq (chr c) (lit w)"
  by (simp add: lit_def seqs_def)

lemma matches_lit: "matches (lit w) t = (if prefix w t then [drop (length w) t] else [])"
proof (induction w arbitrary: t)
  case Nil
  then show ?case by (simp add: lit_Nil)
next
  case (Cons c w)
  show ?case
  proof (cases t)
    case Nil
    then show ?thesis by (simp add: lit_Cons chr_def)
  next
    case (Cons d u)
    then show ?thesis using Cons.IH[of u] by (simp add: lit_Cons chr_def)
  qed
qed

lemma first_match_lit:
  "first_match (lit w) t = (if prefix w t then Some (drop (length w) t) else None)"
  by (simp add: first_match_def matches_lit)

lemma consuming_lit: "w \<noteq> [] \<Longrightarrow> consuming (lit w)"
  by (cases w) (simp_all add: lit_Cons chr_def)

lemma disjoint_subset_Nil: "set w \<inter> set r = {} \<Longrightarrow> set w \<subseteq> set r \<Longrightarrow> w = []"
  by (cases w) auto

lemma disjoint_append_subset_Nil:
  "set (w1 @ w2) \<inter> set r = {} \<Longrightarrow> set w1 \<subseteq> set r \<Longrightarrow> w1 = []"
  by (cases w1) auto

lemma prefix_re_sub:
  assumes "consuming r" "repl \<noteq> []"
  shows "prefix w (re_sub r repl s) \<Longrightarrow> set w \<inter> set repl = {} \<Longrightarrow> prefix w s"
proof (induction s arbitrary: w)
  case Nil
  then show ?case using assms(1) by (simp add: re_sub_Nil del: re_sub.simps)
next
  case (Cons c cs)
  show ?case
  proof (cases w)
    case Nil
    then show ?thesis by simp
  next
    case w: (Cons d w')
    show ?thesis
    proof (cases "first_match r (c # cs)")
      case None
      with Cons.prems(1) assms(1) w have "d = c" "prefix w' (re_sub r repl cs)"
        by (simp_all add: re_sub_Cons del: re_sub.simps)
      moreover have "set w' \<inter> set repl = {}" using Cons.prems(2) w by auto
      ultimately show ?thesis using Cons.IH w by simp
    next
      case (Some rest)
      obtain x xs where repl: "repl = x # xs" using assms(2) by (cases repl) auto
      with Cons.prems(1) assms(1) w Some have "d = x"
        by (simp add: re_sub_Cons del: re_sub.simps)
      with Cons.prems(2) w repl show ?thesis by auto
    qed
  qed
qed

lemma sublist_re_sub:
  assumes "consuming r" "repl \<noteq> []" "set w \<inter> set repl = {}"
  shows "sublist w (re_sub r repl s) \<Longrightarrow> sublist w s"
proof (induction s rule: length_induct)
  case (1 s)
  show ?case
  proof (cases s)
    case Nil
    with 1(2) assms(1) show ?thesis by (simp add: re_sub_Nil del: re_sub.simps)
  next
    case (Cons c cs)
    show ?thesis
    proof (cases "first_match r (c # cs)")
      case None
      then have out: "re_sub r repl s = c # re_sub r repl cs"
        using assms(1) Cons by (simp add: re_sub_Cons del: re_sub.simps)
      from 1(2) out have "prefix w (re_sub r repl s) \<or> sublist w (re_sub r repl cs)"
        by (auto simp: sublist_Cons_right)
      then show ?thesis
      proof
        assume "prefix w (re_sub r repl s)"
        then have "prefix w s" using prefix_re_sub assms by blast
        then show ?thesis by (rule prefix_imp_sublist)
      next
        assume "sublist w (re_sub r repl cs)"
        then have "sublist w cs" using 1(1) Cons by simp
        then show ?thesis using Cons by (simp add: sublist_Cons_right)
      qed
    next
      case (Some rest)
      then have out: "re_sub r repl s = repl @ re_sub r repl rest"
        using assms(1) Cons by (simp add: re_sub_Cons del: re_sub.simps)
      have len: "length rest < length s" using first_match_consuming assms(1) Some Cons by blast
      have suf: "suffix rest s" using first_match_suffix Some Cons by blast
      have inner: "sublist w (re_sub r repl rest) \<Longrightarrow> sublist w s"
      proof -
        assume "sublist w (re_sub r repl rest)"
        then have "sublist w rest" using 1(1) len by blast
        then show ?thesis using suf by (meson sublist_order.order.trans suffix_imp_sublist)
      qed
      from 1(2) out have
        "sublist w repl \<or> sublist w (re_sub r repl rest) \<or>
         (\<exists>w1 w2. w = w1 @ w2 \<and> suffix w1 repl \<and> prefix w2 (re_sub r repl rest))"
        by (simp add: sublist_append)
      then show ?thesis
      proof (elim disjE exE conjE)
        assume "sublist w repl"
        then have "set w \<subseteq> set repl" by (rule set_mono_sublist)
        with assms(3) have "w = []" by (rule disjoint_subset_Nil)
        then show ?thesis by simp
      next
        assume "sublist w (re_sub r repl rest)"
        then show ?thesis by (rule inner)
      next
        fix w1 w2 assume w: "w = w1 @ w2" and s1: "suffix w1 repl" and p2: "prefix w2 (re_sub r repl rest)"
        from s1 have "set w1 \<subseteq> set repl" by (rule set_mono_suffix)
        with assms(3) w have "w1 = []" using disjoint_append_subset_Nil by blast
        with w p2 have "sublist w (re_sub r repl rest)" by (simp add: prefix_imp_sublist)
        then show ?thesis by (rule inner)
      qed
    qed
  qed
qed

lemma re_sub_removes_sublist:
  assumes "consuming r" "repl \<noteq> []" "set w \<inter> set repl = {}" "w \<noteq> []"
    and m: "\<And>t. prefix w t \<Longrightarrow> first_match r t \<noteq> None"
  shows "\<not> sublist w (re_sub r repl s)"
proof (induction s rule: length_induct)
  case (1 s)
  show ?case
  proof (cases s)
    case Nil
    with assms(1,4) show ?thesis by (simp add: re_sub_Nil del: re_sub.simps)
  next
    case (Cons c cs)
    show ?thesis
    proof (cases "first_match r (c # cs)")
      case None
      then have out: "re_sub r repl s = c # re_sub r repl cs"
        using assms(1) Cons by (simp add: re_sub_Cons del: re_sub.simps)
      have "\<not> prefix w (re_sub r repl s)"
      proof
        assume "prefix w (re_sub r repl s)"
        then have "prefix w s" using prefix_re_sub assms(1,2,3) by blast
        with m None Cons show False by blast
      qed
      moreover have "\<not> sublist w (re_sub r repl cs)" using 1 Cons by simp
      ultimately show ?thesis using out by (simp add: sublist_Cons_right)
    next
      case (Some rest)
      then have out: "re_sub r repl s = repl @ re_sub r repl rest"
        using assms(1) Cons by (simp add: re_sub_Cons del: re_sub.simps)
      have len: "length rest < length s" using first_match_consuming assms(1) Some Cons by blast
      have inner: "\<not> sublist w (re_sub r repl rest)" using 1 len by blast
      show ?thesis
      proof
        assume "sublist w (re_sub r repl s)"
        with out have
          "sublist w repl \<or> sublist w (re_sub r repl rest) \<or>
           (\<exists>w1 w2. w = w1 @ w2 \<and> suffix w1 repl \<and> prefix w2 (re_sub r repl rest))"
          by (simp add: sublist_append)
        then show False
        proof (elim disjE exE conjE)
          assume "sublist w repl"
          then have "set w \<subseteq> set repl" by (rule set_mono_sublist)
          with assms(3) have "w = []" by (rule disjoint_subset_Nil)
          with assms(4) show False ..
        next
          assume "sublist w (re_sub r repl rest)"
          with inner show False ..
        next
          fix w1 w2 assume w: "w = w1 @ w2" and s1: "suffix w1 repl" and p2: "prefix w2 (re_sub r repl rest)"
          from s1 have "set w1 \<subseteq> set repl" by (rule set_mono_suffix)
          with assms(3) w have "w1 = []" using disjoint_append_subset_Nil by blast
          with w p2 have "sublist w (re_sub r repl rest)" by (simp add: prefix_imp_sublist)
          with inner show False ..
        qed
      qed
    qed
  qed
qed

lemma sublist_strip: "sublist (strip s) s"
proof -
  have "suffix (dropWhile isspace (rev (dropWhile isspace s))) (rev (dropWhile isspace s))"
    by (rule suffix_dropWhile)
  then have "prefix (strip s) (dropWhile isspace s)"
    by (simp add: suffix_to_prefix strip_def)
  moreover have "suffix (dropWhile isspace s) s" by (rule suffix_dropWhile)
  ultimately show ?thesis
    by (meson prefix_imp_sublist suffix_imp_sublist sublist_order.order.trans)
qed

lemma strip_all_space: "\<forall>c\<in>set s. isspace c \<Longrightarrow> strip s = []"
proof -
  assume "\<forall>c\<in>set s. isspace c"
  then have d: "dropWhile isspace s = []" by (induction s) auto
  show ?thesis by (simp only: strip_def d dropWhile.simps rev.simps)
qed

lemma strip_ends: "strip s \<noteq> [] \<Longrightarrow> \<not> isspace (hd (strip s)) \<and> \<not> isspace (last (strip s))"
proof -
  assume ne: "strip s \<noteq> []"
  define y where "y = dropWhile isspace s"
  define z where "z = dropWhile isspace (rev y)"
  have st: "strip s = rev z" by (simp add: strip_def y_def z_def)
  with ne have z: "z \<noteq> []" by simp
  then have y: "y \<noteq> []" by (auto simp: z_def)
  have "\<not> isspace (hd z)" using z unfolding z_def by (rule hd_dropWhile)
  then have 1: "\<not> isspace (last (strip s))" using st z by (simp add: last_rev)
  have "suffix z (rev y)" unfolding z_def by (rule suffix_dropWhile)
  then obtain u where "rev y = u @ z" by (auto simp: suffix_def)
  then have "last z = last (rev y)" using z by simp
  also have "\<dots> = hd y" using y by (simp add: last_rev)
  finally have "hd (strip s) = hd y" using st z by (simp add: hd_rev)
  moreover have "\<not> isspace (hd y)" using y unfolding y_def by (rule hd_dropWhile)
  ultimately show ?thesis using 1 by simp
qed

lemmas consuming_defs = re_spaced_def re_dash_def re_newlines_def re_dots4_def re_spaces_def
  seqs_def many1_def chr_def

lemma consuming_patterns:
  "consuming (re_spaced c)" "consuming re_dash" "consuming re_newlines" "consuming re_dots4"
  "consuming re_dots3" "consuming re_dots2" "consuming (lit LONG_PAUSE)" "consuming (lit MED_PAUSE)"
  "consuming re_spaces"
  by (simp_all add: consuming_defs re_dots3_def re_dots2_def consuming_lit asc_simps
        LONG_PAUSE_def MED_PAUSE_def)


lemma no_angle_entity_re_sub:
  assumes "consuming r" "repl \<noteq> []" "set repl \<inter> {38, 59, 103, 108, 116} = {}"
  shows "no_angle_entity s \<Longrightarrow> no_angle_entity (re_sub r repl s)"
proof -
  have "set (asc ''&lt;'') \<inter> set repl = {}" "set (asc ''&gt;'') \<inter> set repl = {}"
    using assms(3) by (auto simp: asc_simps)
  then show "no_angle_entity s \<Longrightarrow> no_angle_entity (re_sub r repl s)"
    unfolding no_angle_entity_def using sublist_re_sub[OF assms(1,2)] by blast
qed

lemma no_angle_entity_strip: "no_angle_entity s \<Longrightarrow> no_angle_entity (strip s)"
  unfolding no_angle_entity_def using sublist_strip by (meson sublist_order.order.trans)

lemma no_angle_entity_decode_angle: "no_angle_entity (decode_angle t)"
proof -
  let ?u = "replace (asc ''&lt;'') (asc ''<'') t"
  have 1: "\<not> sublist (asc ''&lt;'') ?u"
    unfolding replace_def
    by (rule re_sub_removes_sublist) (simp_all add: consuming_lit first_match_lit asc_simps)
  have 2: "\<not> sublist (asc ''&lt;'') (decode_angle t)"
    unfolding decode_angle_def replace_def
    using 1 sublist_re_sub[of "lit (asc ''&gt;'')" "asc ''>''" "asc ''&lt;''" "re_sub (lit (asc ''&lt;'')) (asc ''<'') t"]
    by (auto simp: consuming_lit asc_simps replace_def)
  have 3: "\<not> sublist (asc ''&gt;'') (decode_angle t)"
    unfolding decode_angle_def replace_def
    by (rule re_sub_removes_sublist) (simp_all add: consuming_lit first_match_lit asc_simps)
  from 2 3 show ?thesis by (simp add: no_angle_entity_def)
qed

lemma repl_facts:
  "asc '', '' \<noteq> []" "set (asc '', '') \<inter> {38, 59, 103, 108, 116} = {}"
  "asc '' ... '' \<noteq> []" "set (asc '' ... '') \<inter> {38, 59, 103, 108, 116} = {}"
  "asc '' .. '' \<noteq> []" "set (asc '' .. '') \<inter> {38, 59, 103, 108, 116} = {}"
  "asc '' '' \<noteq> []" "set (asc '' '') \<inter> {38, 59, 103, 108, 116} = {}"
  "LONG_PAUSE \<noteq> []" "set LONG_PAUSE \<inter> {38, 59, 103, 108, 116} = {}"
  "MED_PAUSE \<noteq> []" "set MED_PAUSE \<inter> {38, 59, 103, 108, 116} = {}"
  by (simp_all add: asc_simps LONG_PAUSE_def MED_PAUSE_def)

lemma no_angle_entity_normalize_passes: "no_angle_entity (normalize_passes t)"
proof -
  have "no_angle_entity (passes_before_dots t)"
    unfolding passes_before_dots_def linebreaks_def angle_brackets_def dashes_def pipes_def
    by (intro no_angle_entity_re_sub no_angle_entity_decode_angle consuming_patterns repl_facts)
  then show ?thesis
    unfolding normalize_passes_def clean_whitespace_def collapse_spaces_def dot_pauses_def
      resolve_placeholders_def dot_placeholders_def
    by (intro no_angle_entity_strip no_angle_entity_re_sub consuming_patterns repl_facts)
qed

lemma process_text_for_tts_str:
  "s \<noteq> [] \<Longrightarrow> fst (process_text_for_tts self w (PyStr s)) =
     Inr (if differs_from_one (speech_rate self)
          then prosody (formatted (speech_rate self)) (normalize_passes s)
          else normalize_passes s)"
  by (simp add: process_text_for_tts_def Let_def prosody_def)

lemma strip_Nil: "strip [] = []"
  by (simp add: strip_def)

lemma normalize_passes_Nil: "normalize_passes [] = []"
  by (simp add: normalize_passes_def passes_before_dots_def strip_Nil remove_bullets_def
      decode_entities_def html_entities_def html_pauses_def strip_tags_def decode_angle_def
      pipes_def dashes_def angle_brackets_def linebreaks_def dot_pauses_def dot_placeholders_def
      resolve_placeholders_def clean_whitespace_def collapse_spaces_def replace_def
      first_match_def lit_def re_bullet_tail_def re_bullet_block_def re_opt_tag_def
      re_br_br_def re_br_def re_li_li_def re_tag_def re_div_div_def re_any_tag_def
      consuming_defs re_dots3_def re_dots2_def asc_simps ilit_def ichr_def LONG_PAUSE_def MED_PAUSE_def)

subsection \<open>Unfolding the definitions on concrete inputs\<close>

lemmas pattern_defs = re_opt_tag_def re_br_def re_br_br_def re_bullet_block_def re_bullet_tail_def
  re_li_li_def re_tag_def re_div_div_def re_any_tag_def re_spaced_def re_dash_def re_newlines_def
  re_dots4_def re_dots3_def re_dots2_def re_spaces_def
  seqs_def chr_def lit_def ichr_def ilit_def many1_def icase_def anychar_def not_gt_def isdot_def
  isspace_def bullet_def LONG_PAUSE_def MED_PAUSE_def asc_def first_match_def replace_def

lemmas pass_defs = remove_bullets_def html_entities_def decode_entities_def html_pauses_def
  strip_tags_def decode_angle_def pipes_def dashes_def angle_brackets_def linebreaks_def
  dot_placeholders_def resolve_placeholders_def dot_pauses_def collapse_spaces_def
  clean_whitespace_def passes_before_dots_def normalize_passes_def strip_def

lemmas example_defs = process_text_for_tts_def prosody_def init_def test_config_def get_or_def
  default_speech_rate_def neutral_speech_rate_def test_world_def write_log_def Let_def

subsection \<open>What the methods around the note leave unchanged\<close>

lemma ed_note_show [simp]:
  "ed_note (showInfo m w) = ed_note w" "ed_note (showCritical m w) = ed_note w"
  by (simp_all add: showInfo_def showCritical_def)

lemma files_show [simp]:
  "files (showInfo m w) = files w" "files (showCritical m w) = files w"
  by (simp_all add: showInfo_def showCritical_def)

lemma process_text_for_tts_frame:
  "ed_note (snd (process_text_for_tts self w v)) = ed_note w \<and>
   files (snd (process_text_for_tts self w v)) = files w \<and>
   vendor (snd (process_text_for_tts self w v)) = vendor w \<and>
   temp_writable (snd (process_text_for_tts self w v)) = temp_writable w \<and>
   temp_dir (snd (process_text_for_tts self w v)) = temp_dir w \<and>
   file_timestamp (snd (process_text_for_tts self w v)) = file_timestamp w"
  by (simp add: process_text_for_tts_def write_log_def Let_def split: sum.splits)

lemma ed_note_create_audio_file:
  "ed_note (snd (create_audio_file self w t)) = ed_note w"
  using process_text_for_tts_frame [of self w "PyStr t"]
  by (auto simp: create_audio_file_def Let_def split: prod.splits option.splits sum.splits)

lemma files_create_audio_file:
  "fst (create_audio_file self w t) = Some p \<Longrightarrow> files (snd (create_audio_file self w t)) p \<noteq> None"
  by (auto simp: create_audio_file_def Let_def split: prod.splits option.splits sum.splits if_splits)

lemma add_audio_to_note_fails:
  "\<not> fst (add_audio_to_note w p) \<Longrightarrow>
   ed_note (snd (add_audio_to_note w p)) = ed_note w \<and> files (snd (add_audio_to_note w p)) = files w"
  by (auto simp: add_audio_to_note_def Let_def split: prod.splits option.splits if_splits)

lemma ed_note_clear_files [simp]: "files (clear_audio_field w) = files w"
  by (simp add: clear_audio_field_def split: option.splits)

lemmas world_defs = process_text_def create_audio_file_def add_audio_to_note_def
  clear_audio_field_def get_field_content_def first_audio_field_def audio_fields_def
  has_field_def set_field_def showInfo_def showCritical_def

lemma oracle_show [simp]:
  "loadNote_raises (showInfo m w) = loadNote_raises w"
  "loadNote_raises (showCritical m w) = loadNote_raises w"
  "anki_available (showInfo m w) = anki_available w"
  "anki_available (showCritical m w) = anki_available w"
  "editor_has_loadNote (showInfo m w) = editor_has_loadNote w"
  "editor_has_loadNote (showCritical m w) = editor_has_loadNote w"
  by (simp_all add: showInfo_def showCritical_def)

lemma loadNote_raises_clear [simp]: "loadNote_raises (clear_audio_field w) = loadNote_raises w"
  by (simp add: clear_audio_field_def split: option.splits)

lemma loadNote_raises_process_text_for_tts:
  "loadNote_raises (snd (process_text_for_tts self w v)) = loadNote_raises w"
  by (simp add: process_text_for_tts_def write_log_def Let_def split: sum.splits)

lemma loadNote_raises_create_audio_file:
  "loadNote_raises (snd (create_audio_file self w t)) = loadNote_raises w"
  using loadNote_raises_process_text_for_tts [of self w "PyStr t"]
  by (auto simp: create_audio_file_def Let_def split: prod.splits option.splits sum.splits)

lemma loadNote_raises_add_audio_to_note:
  "loadNote_raises (snd (add_audio_to_note w p)) = loadNote_raises w"
  by (auto simp: add_audio_to_note_def Let_def split: prod.splits option.splits if_splits)

subsection \<open>Decoding the table of entities\<close>

lemma decode_table_Nil: "decode_table [] t = t"
  by (simp add: decode_table_def)

lemma decode_table_Cons: "decode_table ((e, r) # tab) t = decode_table tab (replace e r t)"
  by (simp add: decode_table_def)

lemma decode_table_append: "decode_table (a @ b) t = decode_table b (decode_table a t)"
  by (simp add: decode_table_def)

lemma decode_entities_table: "decode_entities t = decode_table html_entities t"
  by (simp add: decode_entities_def decode_table_def)

lemma entity_disjoint:
  "\<forall>c\<in>set w. entity_char c \<Longrightarrow> \<forall>c\<in>set r. \<not> entity_char c \<Longrightarrow> set w \<inter> set r = {}"
  by auto

lemma re_sub_keeps_entity:
  assumes "consuming r" "repl \<noteq> []" "\<forall>c\<in>set repl. \<not> entity_char c" "\<forall>c\<in>set w. entity_char c"
  shows "\<not> sublist w s \<Longrightarrow> \<not> sublist w (re_sub r repl s)"
  using sublist_re_sub [OF assms(1,2) entity_disjoint [OF assms(4,3)]] by blast

lemma replace_keeps_entity:
  assumes "e \<noteq> []" "repl \<noteq> []" "\<forall>c\<in>set repl. \<not> entity_char c" "\<forall>c\<in>set w. entity_char c"
  shows "\<not> sublist w s \<Longrightarrow> \<not> sublist w (replace e repl s)"
  unfolding replace_def using assms by (intro re_sub_keeps_entity consuming_lit)

lemma replace_removes_entity:
  assumes "e \<noteq> []" "repl \<noteq> []" "\<forall>c\<in>set repl. \<not> entity_char c" "\<forall>c\<in>set e. entity_char c"
  shows "\<not> sublist e (replace e repl s)"
  unfolding replace_def
proof (rule re_sub_removes_sublist)
  show "consuming (lit e)" using assms(1) by (rule consuming_lit)
  show "set e \<inter> set repl = {}" using assms(3,4) by auto
  show "\<And>t. prefix e t \<Longrightarrow> first_match (lit e) t \<noteq> None" by (simp add: first_match_lit)
qed (use assms in auto)

lemma replace_absent:
  assumes "e \<noteq> []" "\<not> sublist e s"
  shows "replace e repl s = s"
  unfolding replace_def
proof (rule re_sub_id)
  show "consuming (lit e)" using assms(1) by (rule consuming_lit)
  fix t assume "suffix t s"
  then have "\<not> prefix e t" using assms(2)
    by (meson prefix_imp_sublist sublist_order.order.trans suffix_imp_sublist)
  then show "first_match (lit e) t = None" by (simp add: first_match_lit)
qed

lemma decode_table_keeps:
  "entity_table tab \<Longrightarrow> \<forall>c\<in>set w. entity_char c \<Longrightarrow> \<not> sublist w t \<Longrightarrow>
   \<not> sublist w (decode_table tab t)"
proof (induction tab arbitrary: t)
  case Nil
  then show ?case by (simp add: decode_table_Nil)
next
  case (Cons p tab)
  obtain e r where p: "p = (e, r)" by (cases p)
  have tab: "entity_table tab" using Cons.prems(1) by (simp add: entity_table_def)
  have er: "e \<noteq> []" "r \<noteq> []" "\<forall>c\<in>set r. \<not> entity_char c"
    using Cons.prems(1) p by (auto simp: entity_table_def)
  have "\<not> sublist w (replace e r t)"
    using er Cons.prems(2,3) by (intro replace_keeps_entity)
  then show ?case using Cons.IH [OF tab Cons.prems(2)] p by (simp add: decode_table_Cons)
qed

lemma decode_table_removes:
  "entity_table tab \<Longrightarrow> (e, r) \<in> set tab \<Longrightarrow> \<not> sublist e (decode_table tab t)"
proof (induction tab arbitrary: t)
  case Nil
  then show ?case by simp
next
  case (Cons p tab)
  obtain e' r' where p: "p = (e', r')" by (cases p)
  have tab: "entity_table tab" using Cons.prems(1) by (simp add: entity_table_def)
  have er: "e' \<noteq> []" "r' \<noteq> []" "\<forall>c\<in>set r'. \<not> entity_char c" "\<forall>c\<in>set e'. entity_char c"
    using Cons.prems(1) p by (auto simp: entity_table_def)
  show ?case
  proof (cases "(e, r) = p")
    case True
    then have ee: "e = e'" using p by simp
    have "\<not> sublist e' (replace e' r' t)" using er by (intro replace_removes_entity)
    then have "\<not> sublist e (replace e' r' t)" using ee by simp
    moreover have "\<forall>c\<in>set e. entity_char c" using True p er by auto
    ultimately show ?thesis using decode_table_keeps [OF tab] p by (simp add: decode_table_Cons)
  next
    case False
    then have "(e, r) \<in> set tab" using Cons.prems(2) by auto
    then show ?thesis using Cons.IH [OF tab] p by (simp add: decode_table_Cons)
  qed
qed

lemma entity_table_late: "entity_table (drop 2 html_entities)"
  by (simp add: entity_table_def html_entities_def entity_char_def asc_simps)

lemma entity_names: "\<forall>e\<in>set (map fst html_entities). \<forall>c\<in>set e. entity_char c"
  by (simp add: html_entities_def entity_char_def asc_simps)

lemma html_entities_split:
  "html_entities = [(asc ''&nbsp;'', asc '' ''), (asc ''&amp;'', asc ''&'')] @ drop 2 html_entities"
  by (simp add: html_entities_def)

lemma late_entities_decoded:
  "\<forall>e\<in>set (map fst (drop 2 html_entities)). \<not> sublist e (decode_entities t)"
proof
  fix e assume "e \<in> set (map fst (drop 2 html_entities))"
  then obtain r where "(e, r) \<in> set (drop 2 html_entities)" by auto
  then have "\<not> sublist e (decode_table (drop 2 html_entities)
      (decode_table [(asc ''&nbsp;'', asc '' ''), (asc ''&amp;'', asc ''&'')] t))"
    using decode_table_removes [OF entity_table_late] by blast
  then show "\<not> sublist e (decode_entities t)"
    using html_entities_split decode_table_append decode_entities_table by metis
qed

lemma all_entities_decoded:
  assumes "\<not> sublist (asc ''&amp;'') t"
  shows "\<forall>e\<in>set (map fst html_entities). \<not> sublist e (decode_entities t)"
proof -
  let ?t1 = "replace (asc ''&nbsp;'') (asc '' '') t"
  let ?t2 = "replace (asc ''&amp;'') (asc ''&'') ?t1"
  have n1: "\<not> sublist (asc ''&nbsp;'') ?t1"
    by (rule replace_removes_entity) (simp_all add: entity_char_def asc_simps)
  have a1: "\<not> sublist (asc ''&amp;'') ?t1"
    using assms by (rule replace_keeps_entity [rotated -1]) (simp_all add: entity_char_def asc_simps)
  have t2: "?t2 = ?t1" using a1 by (intro replace_absent) (simp_all add: asc_simps)
  have dec: "decode_entities t = decode_table (drop 2 html_entities) ?t2"
    using html_entities_split decode_table_append [of _ "drop 2 html_entities" t]
      decode_entities_table [of t]
    by (metis decode_table_Cons decode_table_Nil)
  have "\<not> sublist (asc ''&nbsp;'') (decode_entities t)"
    unfolding dec t2 using n1
    by (intro decode_table_keeps entity_table_late) (simp_all add: entity_char_def asc_simps)
  moreover have "\<not> sublist (asc ''&amp;'') (decode_entities t)"
    unfolding dec t2 using a1
    by (intro decode_table_keeps entity_table_late) (simp_all add: entity_char_def asc_simps)
  moreover have "set (map fst html_entities) =
      {asc ''&nbsp;'', asc ''&amp;''} \<union> set (map fst (drop 2 html_entities))"
    by (subst html_entities_split) simp
  ultimately show ?thesis using late_entities_decoded [of t] by auto
qed

lemma consuming_html_patterns:
  "consuming re_br_br" "consuming re_br" "consuming re_li_li" "consuming (re_tag name)"
  "consuming re_div_div" "consuming re_any_tag"
  by (simp_all add: re_br_br_def re_br_def re_li_li_def re_tag_def re_div_div_def re_any_tag_def
        seqs_def ilit_def ichr_def chr_def asc_simps)

lemma repl_no_entity_char:
  "\<forall>c\<in>set (asc '', ''). \<not> entity_char c" "\<forall>c\<in>set (asc '' ... ''). \<not> entity_char c"
  "\<forall>c\<in>set (asc '' .. ''). \<not> entity_char c" "\<forall>c\<in>set (asc '' ''). \<not> entity_char c"
  "\<forall>c\<in>set (asc ''<''). \<not> entity_char c" "\<forall>c\<in>set (asc ''>''). \<not> entity_char c"
  "\<forall>c\<in>set LONG_PAUSE. \<not> entity_char c" "\<forall>c\<in>set MED_PAUSE. \<not> entity_char c"
  by (simp_all add: entity_char_def asc_simps LONG_PAUSE_def MED_PAUSE_def)

lemma repl_nonempty:
  "asc '', '' \<noteq> []" "asc '' ... '' \<noteq> []" "asc '' .. '' \<noteq> []" "asc '' '' \<noteq> []"
  "asc ''<'' \<noteq> []" "asc ''>'' \<noteq> []" "LONG_PAUSE \<noteq> []" "MED_PAUSE \<noteq> []"
  "asc ''&lt;'' \<noteq> []" "asc ''&gt;'' \<noteq> []"
  by (simp_all add: asc_simps LONG_PAUSE_def MED_PAUSE_def)

lemma html_pauses_keeps_entity:
  assumes "\<forall>c\<in>set w. entity_char c" "\<not> sublist w t"
  shows "\<not> sublist w (html_pauses t)"
  unfolding html_pauses_def Let_def
  by (intro re_sub_keeps_entity consuming_html_patterns repl_no_entity_char repl_nonempty assms)

lemma sublist_strip_trans: "\<not> sublist w t \<Longrightarrow> \<not> sublist w (strip t)"
  using sublist_strip by (meson sublist_order.order.trans)

lemma later_passes_keep_entity:
  assumes "\<forall>c\<in>set w. entity_char c" "\<not> sublist w u"
  shows "\<not> sublist w (clean_whitespace (dot_pauses (linebreaks (angle_brackets
           (dashes (pipes (decode_angle u)))))))"
  unfolding clean_whitespace_def collapse_spaces_def dot_pauses_def resolve_placeholders_def
    dot_placeholders_def linebreaks_def angle_brackets_def dashes_def pipes_def decode_angle_def
    replace_def
  by (intro sublist_strip_trans re_sub_keeps_entity consuming_patterns consuming_lit
        repl_no_entity_char repl_nonempty assms)

lemma normalize_passes_stages:
  "normalize_passes s = clean_whitespace (dot_pauses (linebreaks (angle_brackets
      (dashes (pipes (decode_angle (strip_tags (text_before_tag_removal s))))))))"
  by (simp add: normalize_passes_def passes_before_dots_def text_before_tag_removal_def
      text_after_entities_def text_before_entities_def)

lemma output_keeps_entity:
  assumes "\<forall>c\<in>set w. entity_char c" "\<not> sublist w (text_after_entities s)"
    and "strip_tags (text_before_tag_removal s) = text_before_tag_removal s"
  shows "\<not> sublist w (normalize_passes s)"
proof -
  have "\<not> sublist w (text_before_tag_removal s)"
    unfolding text_before_tag_removal_def using assms(1,2) by (rule html_pauses_keeps_entity)
  then show ?thesis
    unfolding normalize_passes_stages assms(3) using assms(1) by (intro later_passes_keep_entity)
qed

subsection \<open>Splitting a substitution at a border\<close>

lemma local_at_suffix: "local_at r x y \<Longrightarrow> suffix x' x \<Longrightarrow> local_at r x' y"
  unfolding local_at_def using suffix_order.trans by blast

lemma local_at_Nil: "local_at r [] y"
  by (simp add: local_at_def)

lemma local_at_self:
  "local_at r x y \<Longrightarrow> x \<noteq> [] \<Longrightarrow>
   first_match r (x @ y) = map_option (\<lambda>u. u @ y) (first_match r x)"
proof -
  assume a: "local_at r x y" and b: "x \<noteq> []"
  have "x \<noteq> [] \<and> suffix x x" using b by simp
  then show ?thesis using a unfolding local_at_def by blast
qed

lemma re_sub_append:
  assumes "consuming r"
  shows "local_at r x y \<Longrightarrow> re_sub r repl (x @ y) = re_sub r repl x @ re_sub r repl y"
proof (induction x rule: length_induct)
  case (1 x)
  show ?case
  proof (cases x)
    case Nil
    then show ?thesis using assms by (simp add: re_sub_Nil del: re_sub.simps)
  next
    case (Cons c cs)
    have loc: "first_match r (x @ y) = map_option (\<lambda>u. u @ y) (first_match r x)"
      using 1(2) Cons by (intro local_at_self) simp_all
    show ?thesis
    proof (cases "first_match r x")
      case None
      with loc have n: "first_match r (c # cs @ y) = None" using Cons by simp
      have "local_at r cs y" using 1(2) Cons by (intro local_at_suffix [of r x y cs]) (simp_all add: suffix_Cons)
      then have "re_sub r repl (cs @ y) = re_sub r repl cs @ re_sub r repl y"
        using 1(1) Cons by simp
      then show ?thesis using None n Cons assms by (simp add: re_sub_Cons del: re_sub.simps)
    next
      case (Some rest)
      with loc have s: "first_match r (c # cs @ y) = Some (rest @ y)" using Cons by simp
      have len: "length rest < length x" using first_match_consuming assms Some by blast
      have suf: "suffix rest x" using first_match_suffix Some by blast
      have "local_at r rest y" using 1(2) suf by (rule local_at_suffix)
      then have "re_sub r repl (rest @ y) = re_sub r repl rest @ re_sub r repl y"
        using 1(1) len by blast
      then show ?thesis using Some s Cons assms by (simp add: re_sub_Cons del: re_sub.simps)
    qed
  qed
qed

lemma re_sub_append3:
  "consuming r \<Longrightarrow> local_at r x (m @ y) \<Longrightarrow> local_at r m y \<Longrightarrow>
   re_sub r repl (x @ m @ y) = re_sub r repl x @ re_sub r repl m @ re_sub r repl y"
  by (simp add: re_sub_append)

lemma prefix_crossing:
  assumes "prefix w (t @ y)" "\<not> prefix w t" "t \<noteq> []"
  shows "y \<noteq> [] \<and> hd y \<in> set (tl w) \<and> last t \<in> set (butlast w)"
proof -
  from assms(1,2) obtain us where w: "w = t @ us" and p: "prefix us y"
    by (auto simp: prefix_append)
  from w assms(2) have us: "us \<noteq> []" by auto
  with p have y: "y \<noteq> []" by auto
  from p us have "hd y = hd us" by (auto simp: prefix_def)
  then have "hd y \<in> set (tl w)" using w us assms(3) by (cases t) auto
  moreover have "last t \<in> set (butlast w)" using w us assms(3) by (simp add: butlast_append)
  ultimately show ?thesis using y by simp
qed

lemma local_at_lit_hd: "y = [] \<or> hd y \<notin> set (tl w) \<Longrightarrow> local_at (lit w) x y"
  unfolding local_at_def first_match_lit
  using prefix_crossing [of w _ y] by (auto simp: prefix_def)

lemma local_at_lit_last: "x = [] \<or> last x \<notin> set (butlast w) \<Longrightarrow> local_at (lit w) x y"
proof -
  assume a: "x = [] \<or> last x \<notin> set (butlast w)"
  have "first_match (lit w) (t @ y) = map_option (\<lambda>u. u @ y) (first_match (lit w) t)"
    if t: "t \<noteq> []" "suffix t x" for t
  proof -
    from t have "last t = last x" by (auto simp: suffix_def)
    moreover from t have "x \<noteq> []" by (auto simp: suffix_def)
    ultimately have "last t \<notin> set (butlast w)" using a by simp
    then have "prefix w (t @ y) \<Longrightarrow> prefix w t" using prefix_crossing [of w t y] t(1) by blast
    then show ?thesis by (auto simp: first_match_lit prefix_def)
  qed
  then show ?thesis unfolding local_at_def by blast
qed

subsection \<open>The runs of dots\<close>

lemma first_match_chr_seq:
  "first_match (RSeq (chr c) r) t =
     (case t of [] \<Rightarrow> None | d # u \<Rightarrow> if d = c then first_match r u else None)"
  by (cases t) (simp_all add: first_match_def chr_def)

lemma matches_star_hd: "\<exists>ys. matches (RStar p) s = dropWhile p s # ys"
proof (induction s)
  case Nil
  then show ?case by simp
next
  case (Cons c cs)
  then obtain ys where "matches (RStar p) cs = dropWhile p cs # ys" by blast
  then show ?case by simp
qed

lemma first_match_star_end: "first_match (RSeq (RStar p) REmpty) t = Some (dropWhile p t)"
proof -
  obtain ys where "matches (RStar p) t = dropWhile p t # ys" using matches_star_hd by blast
  then show ?thesis by (simp add: first_match_def)
qed

lemma first_match_dots4:
  "first_match re_dots4 t =
     (case t of
        a # b # c # d # u \<Rightarrow>
          if a = 46 \<and> b = 46 \<and> c = 46 \<and> d = 46 then Some (dropWhile isdot u) else None
      | _ \<Rightarrow> None)"
  unfolding re_dots4_def seqs_def foldr.simps o_apply first_match_chr_seq
  by (simp add: first_match_star_end split: list.splits)

lemma dropWhile_isdot_append:
  "(y = [] \<or> hd y \<noteq> 46) \<or> (u \<noteq> [] \<and> last u \<noteq> 46) \<Longrightarrow>
   dropWhile isdot (u @ y) = dropWhile isdot u @ y"
proof (induction u)
  case Nil
  then show ?case by (cases y) (auto simp: isdot_def)
next
  case (Cons a u)
  then show ?case by (cases "u = []") (auto simp: isdot_def)
qed

lemma dots4_local:
  assumes "t \<noteq> []" "(y = [] \<or> hd y \<noteq> 46) \<or> last t \<noteq> 46"
  shows "first_match re_dots4 (t @ y) = map_option (\<lambda>u. u @ y) (first_match re_dots4 t)"
proof (cases t)
  case Nil
  with assms show ?thesis by simp
next
  case t1: (Cons a ta)
  show ?thesis
  proof (cases ta)
    case Nil
    with t1 assms show ?thesis
      by (cases y; cases "tl y"; cases "tl (tl y)") (auto simp: first_match_dots4)
  next
    case t2: (Cons b tb)
    show ?thesis
    proof (cases tb)
      case Nil
      with t1 t2 assms show ?thesis by (cases y; cases "tl y") (auto simp: first_match_dots4)
    next
      case t3: (Cons c tc)
      show ?thesis
      proof (cases tc)
        case Nil
        with t1 t2 t3 assms show ?thesis by (cases y) (auto simp: first_match_dots4)
      next
        case t4: (Cons d u)
        have "dropWhile isdot (u @ y) = dropWhile isdot u @ y" if "d = 46"
          using assms(2) t1 t2 t3 t4 that by (intro dropWhile_isdot_append) (auto split: if_splits)
        then show ?thesis using t1 t2 t3 t4 by (simp add: first_match_dots4)
      qed
    qed
  qed
qed

lemma local_at_dots4_hd: "y = [] \<or> hd y \<noteq> 46 \<Longrightarrow> local_at re_dots4 x y"
  unfolding local_at_def using dots4_local by blast

lemma local_at_dots4_last: "x = [] \<or> last x \<noteq> 46 \<Longrightarrow> local_at re_dots4 x y"
proof -
  assume a: "x = [] \<or> last x \<noteq> 46"
  have "first_match re_dots4 (t @ y) = map_option (\<lambda>u. u @ y) (first_match re_dots4 t)"
    if t: "t \<noteq> []" "suffix t x" for t
  proof -
    from t have "last t = last x" "x \<noteq> []" by (auto simp: suffix_def)
    with a have "last t \<noteq> 46" by simp
    then show ?thesis using t(1) by (intro dots4_local) simp_all
  qed
  then show ?thesis unfolding local_at_def by blast
qed

lemma re_sub_eq_Nil: "consuming r \<Longrightarrow> repl \<noteq> [] \<Longrightarrow> re_sub r repl s = [] \<Longrightarrow> s = []"
  by (cases s) (auto simp: re_sub_Cons simp del: re_sub.simps split: option.splits)

lemma hd_re_sub:
  assumes "consuming r" "repl \<noteq> []" "hd repl \<noteq> c" "s = [] \<or> hd s \<noteq> c"
  shows "re_sub r repl s = [] \<or> hd (re_sub r repl s) \<noteq> c"
  using assms
  by (cases s) (auto simp: re_sub_Nil re_sub_Cons simp del: re_sub.simps split: option.splits)

lemma last_re_sub:
  assumes "consuming r" "repl \<noteq> []" "last repl \<noteq> c"
  shows "s = [] \<or> last s \<noteq> c \<Longrightarrow> re_sub r repl s = [] \<or> last (re_sub r repl s) \<noteq> c"
proof (induction s rule: length_induct)
  case (1 s)
  show ?case
  proof (cases s)
    case Nil
    then show ?thesis using assms(1) by (simp add: re_sub_Nil del: re_sub.simps)
  next
    case (Cons d cs)
    show ?thesis
    proof (cases "first_match r (d # cs)")
      case None
      then have out: "re_sub r repl s = d # re_sub r repl cs"
        using assms(1) Cons by (simp add: re_sub_Cons del: re_sub.simps)
      show ?thesis
      proof (cases "cs = []")
        case True
        then show ?thesis using out 1(2) Cons assms(1) by (simp add: re_sub_Nil del: re_sub.simps)
      next
        case False
        then have "last cs \<noteq> c" using 1(2) Cons by simp
        then have "re_sub r repl cs = [] \<or> last (re_sub r repl cs) \<noteq> c" using 1(1) Cons by simp
        moreover have "re_sub r repl cs \<noteq> []" using re_sub_eq_Nil assms(1,2) False by blast
        ultimately show ?thesis using out by simp
      qed
    next
      case (Some rest)
      then have out: "re_sub r repl s = repl @ re_sub r repl rest"
        using assms(1) Cons by (simp add: re_sub_Cons del: re_sub.simps)
      have len: "length rest < length s" using first_match_consuming assms(1) Some Cons by blast
      have suf: "suffix rest s" using first_match_suffix Some Cons by blast
      show ?thesis
      proof (cases "rest = []")
        case True
        then show ?thesis using out assms by (simp add: re_sub_Nil del: re_sub.simps)
      next
        case False
        with suf have "last rest = last s" by (auto simp: suffix_def)
        then have "last rest \<noteq> c" using 1(2) Cons by simp
        then have "re_sub r repl rest = [] \<or> last (re_sub r repl rest) \<noteq> c" using 1(1) len by blast
        moreover have "re_sub r repl rest \<noteq> []" using re_sub_eq_Nil assms(1,2) False by blast
        ultimately show ?thesis using out by simp
      qed
    qed
  qed
qed

lemma dots4_short: "length t < 4 \<Longrightarrow> first_match re_dots4 t = None"
  by (auto simp: first_match_dots4 split: list.splits)

lemma re_sub_dots4_run:
  "re_sub re_dots4 repl (replicate n 46) = (if 4 \<le> n then repl else replicate n 46)"
proof (cases "4 \<le> n")
  case True
  define k where "k = n - 4"
  have n: "n = Suc (Suc (Suc (Suc k)))" using True by (simp add: k_def)
  have "dropWhile isdot (replicate k 46) = []" by (simp add: isdot_def)
  then have "first_match re_dots4 (replicate n 46) = Some []"
    using n by (simp add: first_match_dots4)
  then show ?thesis using True n consuming_patterns(4)
    by (simp add: re_sub_Cons re_sub_Nil del: re_sub.simps)
next
  case False
  have "re_sub re_dots4 repl (replicate n 46) = replicate n 46"
  proof (rule re_sub_id [OF consuming_patterns(4)])
    fix t assume "suffix t (replicate n (46::nat))"
    then have "length t \<le> n" using suffix_length_le by fastforce
    with False show "first_match re_dots4 t = None" by (intro dots4_short) simp
  qed
  with False show ?thesis by simp
qed

lemma dot_stage:
  assumes "r = re_dots4 \<or> r = re_dots3 \<or> r = re_dots2"
    and "A = [] \<or> last A \<noteq> 46" "B = [] \<or> hd B \<noteq> 46"
  shows "re_sub r repl (A @ M @ B) = re_sub r repl A @ re_sub r repl M @ re_sub r repl B"
proof -
  have c: "consuming r" using assms(1) consuming_patterns by blast
  have 1: "local_at r A (M @ B)"
    using assms(1,2) local_at_dots4_last [of A] local_at_lit_last [of A]
    by (auto simp: re_dots3_def re_dots2_def asc_simps)
  have 2: "local_at r M B"
    using assms(1,3) local_at_dots4_hd [of B] local_at_lit_hd [of B]
    by (auto simp: re_dots3_def re_dots2_def asc_simps)
  from c 1 2 show ?thesis by (rule re_sub_append3)
qed

lemma lit_stage:
  assumes "w \<noteq> []" "M \<noteq> []" "hd M \<notin> set (tl w)" "last M \<notin> set (butlast w)"
  shows "re_sub (lit w) repl (A @ M @ B) =
         re_sub (lit w) repl A @ re_sub (lit w) repl M @ re_sub (lit w) repl B"
proof -
  have c: "consuming (lit w)" using assms(1) by (rule consuming_lit)
  have 1: "local_at (lit w) A (M @ B)" using assms(2,3) by (intro local_at_lit_hd) simp
  have 2: "local_at (lit w) M B" using assms(4) by (intro local_at_lit_last) simp
  from c 1 2 show ?thesis by (rule re_sub_append3)
qed

lemma dot_placeholders_split:
  assumes "pre = [] \<or> last pre \<noteq> 46" "post = [] \<or> hd post \<noteq> 46"
  shows "dot_placeholders (pre @ M @ post) =
         dot_placeholders pre @ dot_placeholders M @ dot_placeholders post"
proof -
  let ?p1 = "re_sub re_dots4 LONG_PAUSE" and ?p2 = "re_sub re_dots3 LONG_PAUSE"
  have l: "LONG_PAUSE \<noteq> []" "last LONG_PAUSE \<noteq> 46" "hd LONG_PAUSE \<noteq> 46"
    by (simp_all add: LONG_PAUSE_def asc_simps)
  have a1: "?p1 pre = [] \<or> last (?p1 pre) \<noteq> 46"
    by (rule last_re_sub [OF consuming_patterns(4) l(1) l(2) assms(1)])
  have a2: "?p2 (?p1 pre) = [] \<or> last (?p2 (?p1 pre)) \<noteq> 46"
    by (rule last_re_sub [OF consuming_patterns(5) l(1) l(2) a1])
  have b1: "?p1 post = [] \<or> hd (?p1 post) \<noteq> 46"
    by (rule hd_re_sub [OF consuming_patterns(4) l(1) l(3) assms(2)])
  have b2: "?p2 (?p1 post) = [] \<or> hd (?p2 (?p1 post)) \<noteq> 46"
    by (rule hd_re_sub [OF consuming_patterns(5) l(1) l(3) b1])
  show ?thesis
    unfolding dot_placeholders_def
    by (simp only: dot_stage [OF _ assms] dot_stage [OF _ a1 b1] dot_stage [OF _ a2 b2] simp_thms)
qed

lemma run_placeholders:
  assumes "0 < n"
  shows "dot_placeholders (replicate n 46) =
         (if 3 \<le> n then LONG_PAUSE else if n = 2 then MED_PAUSE else [46])"
proof -
  have keep: "re_sub re_dots2 MED_PAUSE (re_sub re_dots3 LONG_PAUSE LONG_PAUSE) = LONG_PAUSE"
    by (simp add: pattern_defs)
  from assms consider "4 \<le> n" | "n = 3" | "n = 2" | "n = 1" by linarith
  then show ?thesis
  proof cases
    case 1
    then show ?thesis by (simp add: dot_placeholders_def re_sub_dots4_run keep)
  next
    case 2
    have r: "replicate n 46 = [46, 46, 46]" using 2 by (simp add: numeral_3_eq_3)
    have "dot_placeholders [46, 46, 46] = LONG_PAUSE"
      by (simp add: dot_placeholders_def pattern_defs)
    then show ?thesis using 2 unfolding r by simp
  next
    case 3
    have r: "replicate n 46 = [46, 46]" using 3 by (simp add: numeral_2_eq_2)
    have "dot_placeholders [46, 46] = MED_PAUSE"
      by (simp add: dot_placeholders_def pattern_defs)
    then show ?thesis using 3 unfolding r by simp
  next
    case 4
    have r: "replicate n 46 = [46]" using 4 by simp
    have "dot_placeholders [46] = [46]"
      by (simp add: dot_placeholders_def pattern_defs)
    then show ?thesis using 4 unfolding r by simp
  qed
qed

lemma resolve_split:
  assumes "M = LONG_PAUSE \<or> M = MED_PAUSE \<or> M = [46]"
  shows "resolve_placeholders (A @ M @ B) =
         resolve_placeholders A @ resolve_placeholders M @ resolve_placeholders B"
proof -
  let ?q = "re_sub (lit LONG_PAUSE) (asc '' ... '')"
  have 1: "?q (A @ M @ B) = ?q A @ ?q M @ ?q B"
    using assms by (intro lit_stage) (auto simp: LONG_PAUSE_def MED_PAUSE_def asc_simps)
  have v: "?q M = asc '' ... '' \<or> ?q M = MED_PAUSE \<or> ?q M = [46]"
    using assms by (auto simp: pattern_defs)
  have 2: "re_sub (lit MED_PAUSE) (asc '' .. '') (?q A @ ?q M @ ?q B) =
           re_sub (lit MED_PAUSE) (asc '' .. '') (?q A) @ re_sub (lit MED_PAUSE) (asc '' .. '') (?q M)
           @ re_sub (lit MED_PAUSE) (asc '' .. '') (?q B)"
    using v by (intro lit_stage) (auto simp: MED_PAUSE_def asc_simps)
  show ?thesis unfolding resolve_placeholders_def 1 2 ..
qed

lemma resolve_values:
  "resolve_placeholders LONG_PAUSE = asc '' ... ''"
  "resolve_placeholders MED_PAUSE = asc '' .. ''"
  "resolve_placeholders [46] = [46]"
  by (simp_all add: resolve_placeholders_def pattern_defs)

subsection \<open>The dash pass\<close>

lemma matches_chr_seq:
  "matches (RSeq (chr c) r) t = (case t of [] \<Rightarrow> [] | d # u \<Rightarrow> if d = c then matches r u else [])"
  by (cases t) (simp_all add: chr_def)

lemma matches_many1_seq:
  "matches (RSeq (many1 p) r) s =
     (case s of [] \<Rightarrow> [] | d # u \<Rightarrow>
        if p d then concat (map (matches r) (matches (RStar p) u)) else [])"
  by (cases s) (simp_all add: many1_def)

lemma star_then_chr:
  "\<not> p c \<Longrightarrow>
   concat (map (matches (RSeq (chr c) r)) (matches (RStar p) s)) =
   matches (RSeq (chr c) r) (dropWhile p s)"
proof (induction s)
  case Nil
  then show ?case by simp
next
  case (Cons d u)
  have "p d \<Longrightarrow> matches (RSeq (chr c) r) (d # u) = []"
    using Cons.prems by (auto simp: chr_def)
  then show ?case using Cons by (simp del: matches.simps(4))
qed

lemma concat_map_REmpty: "concat (map (matches REmpty) xs) = xs"
  by (induction xs) simp_all

lemma matches_dash:
  "matches re_dash s =
     (case s of [] \<Rightarrow> [] | d # u \<Rightarrow>
        if isspace d then
          (case dropWhile isspace u of [] \<Rightarrow> [] | e # v \<Rightarrow>
             if e = 45 then
               (case v of [] \<Rightarrow> [] | f # z \<Rightarrow>
                  if isspace f then matches (RStar isspace) z else [])
             else [])
        else [])"
proof -
  have s45: "\<not> isspace 45" by (simp add: isspace_def)
  have r: "re_dash = RSeq (many1 isspace) (RSeq (chr 45) (RSeq (many1 isspace) REmpty))"
    by (simp add: re_dash_def seqs_def)
  show ?thesis
    unfolding r matches_many1_seq star_then_chr [of isspace 45, OF s45] matches_chr_seq
      concat_map_REmpty ..
qed

lemma dash_tail_matches:
  "(case (case w of [] \<Rightarrow> [] | e # v \<Rightarrow>
            if e = 45 then
              (case v of [] \<Rightarrow> [] | f # z \<Rightarrow>
                 if isspace f then matches (RStar isspace) z else [])
            else []) of [] \<Rightarrow> None | x # _ \<Rightarrow> Some x) = dash_tail w"
proof (cases w)
  case Nil
  then show ?thesis by (simp add: dash_tail_def)
next
  case w: (Cons e v)
  show ?thesis
  proof (cases v)
    case Nil
    then show ?thesis using w by (simp add: dash_tail_def)
  next
    case v: (Cons f z)
    obtain ys where "matches (RStar isspace) z = dropWhile isspace z # ys"
      using matches_star_hd by blast
    then show ?thesis using w v by (simp add: dash_tail_def)
  qed
qed

lemma first_match_dash:
  "first_match re_dash s =
     (if s \<noteq> [] \<and> isspace (hd s) then dash_tail (dropWhile isspace s) else None)"
proof (cases s)
  case Nil
  then show ?thesis by (simp add: first_match_def matches_dash)
next
  case (Cons d u)
  show ?thesis
  proof (cases "isspace d")
    case False
    then show ?thesis using Cons by (simp add: first_match_def matches_dash)
  next
    case True
    have "first_match re_dash s = dash_tail (dropWhile isspace u)"
      using Cons True dash_tail_matches [of "dropWhile isspace u"]
      by (simp add: first_match_def matches_dash)
    then show ?thesis using Cons True by simp
  qed
qed

lemma dropWhile_append_border:
  "(y = [] \<or> \<not> p (hd y)) \<or> (u \<noteq> [] \<and> \<not> p (last u)) \<Longrightarrow>
   dropWhile p (u @ y) = dropWhile p u @ y"
proof (induction u)
  case Nil
  then show ?case by (cases y) auto
next
  case (Cons a u)
  then show ?case by (cases "u = []") auto
qed

lemma last_dropWhile: "dropWhile p t \<noteq> [] \<Longrightarrow> last (dropWhile p t) = last t"
proof -
  assume a: "dropWhile p t \<noteq> []"
  have "t = takeWhile p t @ dropWhile p t" by simp
  then have "last t = last (takeWhile p t @ dropWhile p t)" by simp
  also have "\<dots> = last (dropWhile p t)" using a by (rule last_appendR)
  finally show ?thesis by simp
qed

lemma dash_tail_hyphen: "dash_tail (45 # post) = None \<longleftrightarrow> post = [] \<or> \<not> isspace (hd post)"
  by (cases post) (simp_all add: dash_tail_def)

lemma dash_tail_other: "e \<noteq> 45 \<Longrightarrow> dash_tail (e # l) = None"
  by (cases l) (simp_all add: dash_tail_def)

lemma dash_local:
  assumes t: "t \<noteq> []"
    and h1: "(y = [] \<or> \<not> isspace (hd y)) \<or> \<not> isspace (last t)"
    and h2: "(y = [] \<or> \<not> isspace (hd y)) \<or> \<not> isspace (hd t) \<or> dropWhile isspace t \<noteq> [45]"
    and h3: "\<not> isspace (last t) \<or> dash_tail y = None"
  shows "first_match re_dash (t @ y) = map_option (\<lambda>u. u @ y) (first_match re_dash t)"
proof (cases "isspace (hd t)")
  case False
  then show ?thesis using t by (simp add: first_match_dash)
next
  case True
  define w where "w = dropWhile isspace t"
  have f1: "first_match re_dash t = dash_tail w"
    using t True by (simp add: first_match_dash w_def)
  have f2: "first_match re_dash (t @ y) = dash_tail (dropWhile isspace (t @ y))"
    using t True by (simp add: first_match_dash)
  show ?thesis
  proof (cases w)
    case Nil
    then have all: "\<forall>c\<in>set t. isspace c" by (simp add: w_def)
    then have "isspace (last t)" using t by simp
    with h1 h3 have y: "y = [] \<or> \<not> isspace (hd y)" and d: "dash_tail y = None" by auto
    have "dropWhile isspace (t @ y) = dropWhile isspace y" using all by simp
    also have "\<dots> = y" using y by (cases y) auto
    finally show ?thesis using f1 f2 d Nil by (simp add: dash_tail_def)
  next
    case w: (Cons e v)
    have "hd w \<in> set t" using w by (metis list.sel(1) list.set_intros(1) set_dropWhileD w_def)
    moreover have "\<not> isspace (hd w)" using w unfolding w_def by (metis hd_dropWhile list.distinct(1))
    ultimately have app: "dropWhile isspace (t @ y) = w @ y"
      unfolding w_def by (intro dropWhile_append1) auto
    show ?thesis
    proof (cases "e = 45")
      case False
      then show ?thesis using f1 f2 app w by (simp add: dash_tail_other)
    next
      case e: True
      show ?thesis
      proof (cases v)
        case Nil
        with w e True h2 have "y = [] \<or> \<not> isspace (hd y)" by (auto simp: w_def)
        then have "dash_tail (45 # y) = None" by (simp add: dash_tail_hyphen)
        then show ?thesis using f1 f2 app w e Nil by (simp add: dash_tail_def)
      next
        case v: (Cons f z)
        show ?thesis
        proof (cases "isspace f")
          case False
          then show ?thesis using f1 f2 app w e v by (simp add: dash_tail_def)
        next
          case f: True
          have "(y = [] \<or> \<not> isspace (hd y)) \<or> (z \<noteq> [] \<and> \<not> isspace (last z))"
          proof (cases "y = [] \<or> \<not> isspace (hd y)")
            case True
            then show ?thesis ..
          next
            case False
            with h1 have "\<not> isspace (last t)" by blast
            moreover have "dropWhile isspace t \<noteq> []" by (metis w w_def list.distinct(1))
            then have "last t = last w" unfolding w_def by (rule last_dropWhile [symmetric])
            ultimately have "\<not> isspace (last (e # f # z))" using w v by simp
            then show ?thesis using f by (cases "z = []") auto
          qed
          then have "dropWhile isspace (z @ y) = dropWhile isspace z @ y"
            by (rule dropWhile_append_border)
          then show ?thesis using f1 f2 app w e v f by (simp add: dash_tail_def)
        qed
      qed
    qed
  qed
qed

lemma local_at_dash_hyphen:
  assumes "(pre = [] \<or> \<not> isspace (last pre)) \<or> (post = [] \<or> \<not> isspace (hd post))"
  shows "local_at re_dash pre (45 # post)"
proof -
  have s45: "\<not> isspace 45" by (simp add: isspace_def)
  have "first_match re_dash (t @ 45 # post) =
          map_option (\<lambda>u. u @ 45 # post) (first_match re_dash t)"
    if t: "t \<noteq> []" "suffix t pre" for t
  proof (rule dash_local)
    show "t \<noteq> []" by (rule t(1))
    show "(45 # post = [] \<or> \<not> isspace (hd (45 # post))) \<or> \<not> isspace (last t)"
      using s45 by simp
    show "(45 # post = [] \<or> \<not> isspace (hd (45 # post))) \<or> \<not> isspace (hd t) \<or>
          dropWhile isspace t \<noteq> [45]"
      using s45 by simp
    from t have "last t = last pre" "pre \<noteq> []" by (auto simp: suffix_def)
    then show "\<not> isspace (last t) \<or> dash_tail (45 # post) = None"
      using assms by (auto simp: dash_tail_hyphen)
  qed
  then show ?thesis unfolding local_at_def by blast
qed

lemma dash_pending_append: "isspace a \<Longrightarrow> dash_pending (u @ [a, 45])"
  by (simp add: dash_pending_def)

lemma local_at_dash_last:
  assumes "pre = [] \<or> (\<not> isspace (last pre) \<and> \<not> dash_pending pre)"
  shows "local_at re_dash pre y"
proof -
  have "first_match re_dash (t @ y) = map_option (\<lambda>u. u @ y) (first_match re_dash t)"
    if t: "t \<noteq> []" "suffix t pre" for t
  proof -
    from t have l: "last t = last pre" "pre \<noteq> []" by (auto simp: suffix_def)
    with assms have ns: "\<not> isspace (last t)" and np: "\<not> dash_pending pre" by auto
    have "\<not> isspace (hd t) \<or> dropWhile isspace t \<noteq> [45]"
    proof (rule ccontr)
      assume "\<not> (\<not> isspace (hd t) \<or> dropWhile isspace t \<noteq> [45])"
      then have h: "isspace (hd t)" and d: "dropWhile isspace t = [45]" by auto
      have tw: "takeWhile isspace t \<noteq> []" using h t(1) by (cases t) auto
      then have "isspace (last (takeWhile isspace t))"
        by (meson last_in_set set_takeWhileD)
      moreover have "t = butlast (takeWhile isspace t) @ [last (takeWhile isspace t), 45]"
        using d tw by (metis append_Cons append_Nil append_assoc append_butlast_last_id
            takeWhile_dropWhile_id)
      moreover obtain u where "pre = u @ t" using t(2) by (auto simp: suffix_def)
      ultimately have "dash_pending pre"
        using dash_pending_append [of "last (takeWhile isspace t)" "u @ butlast (takeWhile isspace t)"]
        by (metis append_assoc)
      with np show False ..
    qed
    with ns show ?thesis using t(1) by (intro dash_local) auto
  qed
  then show ?thesis unfolding local_at_def by blast
qed

lemma first_match_dash_spaced:
  assumes "ws1 \<noteq> []" "\<forall>c\<in>set ws1. isspace c" "ws2 \<noteq> []" "\<forall>c\<in>set ws2. isspace c"
    and "post = [] \<or> \<not> isspace (hd post)"
  shows "first_match re_dash (ws1 @ [45] @ ws2 @ post) = Some post"
proof -
  have s45: "\<not> isspace 45" by (simp add: isspace_def)
  obtain f z where ws2: "ws2 = f # z" using assms(3) by (cases ws2) auto
  have d1: "dropWhile isspace (ws1 @ [45] @ ws2 @ post) = 45 # ws2 @ post"
    using assms(2) s45 by (simp add: dropWhile_append2)
  have "dropWhile isspace (z @ post) = dropWhile isspace post"
    using assms(4) ws2 by (simp add: dropWhile_append2)
  also have "\<dots> = post" using assms(5) by (cases post) auto
  finally have d2: "dropWhile isspace (z @ post) = post" .
  have f: "isspace f" using assms(4) ws2 by simp
  have "dash_tail (45 # ws2 @ post) = Some post"
    using f d2 by (simp add: ws2 dash_tail_def)
  then have "dash_tail (dropWhile isspace (ws1 @ [45] @ ws2 @ post)) = Some post"
    by (simp only: d1)
  moreover have "ws1 @ [45] @ ws2 @ post \<noteq> [] \<and> isspace (hd (ws1 @ [45] @ ws2 @ post))"
    using assms(1,2) by (cases ws1) auto
  ultimately show ?thesis by (simp only: first_match_dash simp_thms if_True)
qed

lemma dashes_spaced:
  assumes "pre = [] \<or> (\<not> isspace (last pre) \<and> \<not> dash_pending pre)"
    and "ws1 \<noteq> []" "\<forall>c\<in>set ws1. isspace c" "ws2 \<noteq> []" "\<forall>c\<in>set ws2. isspace c"
    and "post = [] \<or> \<not> isspace (hd post)"
  shows "dashes (pre @ ws1 @ [45] @ ws2 @ post) = dashes pre @ asc '', '' @ dashes post"
proof -
  let ?m = "ws1 @ [45] @ ws2 @ post"
  have loc: "local_at re_dash pre ?m" using assms(1) by (rule local_at_dash_last)
  have fm: "first_match re_dash ?m = Some post"
    using assms(2-6) by (rule first_match_dash_spaced)
  obtain a u where m: "?m = a # u" using assms(2) by (cases ws1) auto
  have "re_sub re_dash (asc '', '') ?m = asc '', '' @ re_sub re_dash (asc '', '') post"
    using fm unfolding m by (simp add: re_sub_Cons consuming_patterns del: re_sub.simps)
  then show ?thesis
    unfolding dashes_def using re_sub_append [OF consuming_patterns(2) loc] by simp
qed

lemma dashes_hyphen:
  assumes "(pre = [] \<or> \<not> isspace (last pre)) \<or> (post = [] \<or> \<not> isspace (hd post))"
  shows "dashes (pre @ [45] @ post) = dashes pre @ [45] @ dashes post"
proof -
  have s45: "\<not> isspace 45" by (simp add: isspace_def)
  have loc: "local_at re_dash pre (45 # post)" using assms by (rule local_at_dash_hyphen)
  have "first_match re_dash (45 # post) = None" using s45 by (simp add: first_match_dash)
  then have "re_sub re_dash (asc '', '') (45 # post) = 45 # re_sub re_dash (asc '', '') post"
    by (simp add: re_sub_Cons consuming_patterns del: re_sub.simps)
  then show ?thesis
    unfolding dashes_def using re_sub_append [OF consuming_patterns(2) loc] by simp
qed

section \<open>The claims\<close>




text \<open>
  C10. The string that \<open>process_text_for_tts\<close> returns depends only on the input text
  and on the configured speech rate: two processors with the same speech rate, in any
  two worlds (other debug mode, other log, other clock), return the same string for
  the same input.
\<close>

theorem process_text_for_tts_deterministic:
  "speech_rate self = speech_rate self' \<Longrightarrow>
   fst (process_text_for_tts self w text) = fst (process_text_for_tts self' w' text)"
  by (simp add: process_text_for_tts_def Let_def split: sum.splits)

theorem process_text_for_tts_deterministic_witness:
  "speech_rate (init True test_config) = speech_rate ((init True test_config)\<lparr>debug_mode := True\<rparr>) \<and>
   fst (process_text_for_tts (init True test_config) test_world (PyStr (asc ''hei | verden''))) =
   fst (process_text_for_tts ((init True test_config)\<lparr>debug_mode := True\<rparr>)
          (test_world\<lparr>log_writable := False\<rparr>) (PyStr (asc ''hei | verden'')))"
  using process_text_for_tts_deterministic [of "init True test_config"
      "(init True test_config)\<lparr>debug_mode := True\<rparr>" test_world "PyStr (asc ''hei | verden'')"
      "test_world\<lparr>log_writable := False\<rparr>"]
  by simp

text \<open>
  C1, as stated, fails. With the speech rate 0.8 of the configuration the input
  \<open>&amp;amp;\<close> gives \<open><prosody rate="0.8">&amp;</prosody>\<close>: the returned string
  contains a tag, the rate wrapper, and the entity \<open>&amp;\<close> of the table, made by decoding
  the first five characters of the input once. With the neutral rate the input
  \<open>&quo<b></b>t;\<close> gives \<open>&quot;\<close>: removing the tag joins the characters of an entity.
\<close>

theorem no_markup_counterexample:
  "fst (process_text_for_tts (init True test_config) test_world (PyStr (asc ''&amp;amp;''))) =
     Inr (asc ''<prosody rate='' @ [34] @ asc ''0.8'' @ [34] @ asc ''>'' @ asc ''&amp;'' @
          asc ''</prosody>'') \<and>
   fst (process_text_for_tts ((init True test_config)\<lparr>speech_rate := neutral_speech_rate\<rparr>)
         test_world (PyStr (asc ''&quo<b></b>t;''))) = Inr (asc ''&quot;'')"
  by (simp add: example_defs pass_defs pattern_defs)

text \<open>
  C1, amended. For every input string \<open>s\<close>:
  \<^item> if \<open>s\<close> is not empty, the returned string is the text of the passes, inside the one
    rate wrapper exactly when the speech rate differs from 1.0;
  \<^item> the text of the passes contains neither \<open><\<close> nor \<open>>\<close>, so no tag (every \<open><...>\<close> of
    the input is removed or rewritten), and neither \<open>&lt;\<close> nor \<open>&gt;\<close>;
  \<^item> the text after the entity pass contains none of the ten entities that follow
    \<open>&amp;\<close> in the table, and none of the twelve when the text entering that pass
    contains no \<open>&amp;\<close>;
  \<^item> when the removal of the remaining tags removes nothing, the same holds of the text of
    the passes.

  The table is decoded once, in its order: the \<open>&\<close> that decoding \<open>&amp;\<close> gives can form
  an entity with the characters behind it, and a removed tag can join the characters of
  an entity.
\<close>

theorem normalized_text_has_no_markup:
  "(s \<noteq> [] \<longrightarrow>
      fst (process_text_for_tts self w (PyStr s)) =
        Inr (if differs_from_one (speech_rate self)
             then prosody (formatted (speech_rate self)) (normalize_passes s)
             else normalize_passes s)) \<and>
   60 \<notin> set (normalize_passes s) \<and> 62 \<notin> set (normalize_passes s) \<and>
   \<not> sublist (asc ''&lt;'') (normalize_passes s) \<and> \<not> sublist (asc ''&gt;'') (normalize_passes s) \<and>
   (\<forall>e\<in>set (map fst (drop 2 html_entities)). \<not> sublist e (text_after_entities s)) \<and>
   (\<not> sublist (asc ''&amp;'') (text_before_entities s) \<longrightarrow>
      (\<forall>e\<in>set (map fst html_entities). \<not> sublist e (text_after_entities s))) \<and>
   (strip_tags (text_before_tag_removal s) = text_before_tag_removal s \<longrightarrow>
      (\<forall>e\<in>set (map fst (drop 2 html_entities)). \<not> sublist e (normalize_passes s)) \<and>
      (\<not> sublist (asc ''&amp;'') (text_before_entities s) \<longrightarrow>
         (\<forall>e\<in>set (map fst html_entities). \<not> sublist e (normalize_passes s))))"
proof -
  have a: "no_angle (normalize_passes s)" by (rule no_angle_normalize_passes)
  have b: "no_angle_entity (normalize_passes s)" by (rule no_angle_entity_normalize_passes)
  have late: "\<forall>e\<in>set (map fst (drop 2 html_entities)). \<not> sublist e (text_after_entities s)"
    unfolding text_after_entities_def by (rule late_entities_decoded)
  have all: "\<not> sublist (asc ''&amp;'') (text_before_entities s) \<Longrightarrow>
      \<forall>e\<in>set (map fst html_entities). \<not> sublist e (text_after_entities s)"
    unfolding text_after_entities_def by (rule all_entities_decoded)
  have names: "e \<in> set (map fst html_entities) \<Longrightarrow> \<forall>c\<in>set e. entity_char c" for e
    using entity_names by blast
  have late_names: "e \<in> set (map fst (drop 2 html_entities)) \<Longrightarrow> \<forall>c\<in>set e. entity_char c" for e
    using names [of e] by (metis in_set_dropD list.set_map image_iff drop_map)
  have out_late: "\<forall>e\<in>set (map fst (drop 2 html_entities)). \<not> sublist e (normalize_passes s)"
    if "strip_tags (text_before_tag_removal s) = text_before_tag_removal s"
    using that late late_names output_keeps_entity by blast
  have out_all: "\<forall>e\<in>set (map fst html_entities). \<not> sublist e (normalize_passes s)"
    if "strip_tags (text_before_tag_removal s) = text_before_tag_removal s"
      and "\<not> sublist (asc ''&amp;'') (text_before_entities s)"
    using that all names output_keeps_entity by blast
  from a b late all out_late out_all show ?thesis
    by (simp add: no_angle_def no_angle_entity_def process_text_for_tts_str)
qed

theorem normalized_text_has_no_markup_witness:
  "asc ''&quot;<br>x'' \<noteq> [] \<and>
   \<not> sublist (asc ''&amp;'') (text_before_entities (asc ''&quot;<br>x'')) \<and>
   strip_tags (text_before_tag_removal (asc ''&quot;<br>x'')) =
     text_before_tag_removal (asc ''&quot;<br>x'') \<and>
   text_after_entities (asc ''&quot;<br>x'') = [34] @ asc ''<br>x'' \<and>
   \<not> sublist (asc ''&quot;'') (normalize_passes (asc ''&quot;<br>x'')) \<and>
   \<not> sublist (asc ''&lt;'') (normalize_passes (asc ''&quot;<br>x'')) \<and>
   60 \<notin> set (normalize_passes (asc ''&quot;<br>x'')) \<and>
   fst (process_text_for_tts ((init True test_config)\<lparr>speech_rate := neutral_speech_rate\<rparr>)
         test_world (PyStr (asc ''&quot;<br>x''))) = Inr ([34] @ asc '' .. x'')"
proof -
  have tb: "text_before_entities (asc ''&quot;<br>x'') = asc ''&quot;<br>x''"
    by (simp add: text_before_entities_def pass_defs pattern_defs)
  have ta: "text_after_entities (asc ''&quot;<br>x'') = [34] @ asc ''<br>x''"
    by (simp add: text_after_entities_def text_before_entities_def pass_defs pattern_defs)
  have tt: "text_before_tag_removal (asc ''&quot;<br>x'') = [34] @ asc '' .. x''"
    by (simp add: text_before_tag_removal_def text_after_entities_def text_before_entities_def
        pass_defs pattern_defs)
  have st: "strip_tags ([34] @ asc '' .. x'') = [34] @ asc '' .. x''"
    by (simp add: pass_defs pattern_defs)
  have np: "normalize_passes (asc ''&quot;<br>x'') = [34] @ asc '' .. x''"
    by (simp add: pass_defs pattern_defs)
  note ev = tb [unfolded asc_def, simplified] ta [unfolded asc_def, simplified]
    tt [unfolded asc_def, simplified] st [unfolded asc_def, simplified]
    np [unfolded asc_def, simplified]
  show ?thesis
    using normalized_text_has_no_markup [of "asc ''&quot;<br>x''"
      "(init True test_config)\<lparr>speech_rate := neutral_speech_rate\<rparr>" test_world]
    by (simp add: ev init_def neutral_speech_rate_def html_entities_def asc_def
        sublist_Cons_right)
qed

text \<open>
  C3, as stated, fails. With the neutral rate the input \<open><br>\<close> gives \<open>..\<close>, a pause
  marker and nothing else; with the rate 0.8 the input of one space gives the rate
  wrapper around the empty text.
\<close>

theorem empty_result_counterexample:
  "fst (process_text_for_tts ((init True test_config)\<lparr>speech_rate := neutral_speech_rate\<rparr>)
         test_world (PyStr (asc ''<br>''))) = Inr (asc ''..'') \<and>
   fst (process_text_for_tts (init True test_config) test_world (PyStr (asc '' ''))) =
     Inr (asc ''<prosody rate='' @ [34] @ asc ''0.8'' @ [34] @ asc ''></prosody>'')"
  by (simp add: example_defs pass_defs pattern_defs)

text \<open>
  C3, amended. With the neutral speech rate, an input whose text is empty or consists of
  whitespace only after the passes (before the last \<open>strip()\<close>) gives the empty string,
  and a result that is not empty begins and ends with a character that is not
  whitespace. A result that consists of pause markers only is possible.
\<close>

theorem neutral_rate_empty_result:
  assumes "\<not> differs_from_one (speech_rate self)"
  shows "\<exists>out. fst (process_text_for_tts self w (PyStr s)) = Inr out \<and>
           ((\<forall>c\<in>set (collapse_spaces (dot_pauses (passes_before_dots s))). isspace c) \<longrightarrow>
              out = []) \<and>
           (out \<noteq> [] \<longrightarrow> \<not> isspace (hd out) \<and> \<not> isspace (last out))"
proof -
  have out: "fst (process_text_for_tts self w (PyStr s)) =
      Inr (strip (collapse_spaces (dot_pauses (passes_before_dots s))))"
  proof (cases "s = []")
    case True
    then show ?thesis
      using normalize_passes_Nil
      by (simp add: process_text_for_tts_def normalize_passes_def clean_whitespace_def)
  next
    case False
    then show ?thesis
      using assms by (simp add: process_text_for_tts_str normalize_passes_def clean_whitespace_def)
  qed
  show ?thesis unfolding out using strip_all_space strip_ends by blast
qed

theorem neutral_rate_empty_result_witness:
  "\<not> differs_from_one (speech_rate ((init True test_config)\<lparr>speech_rate := neutral_speech_rate\<rparr>)) \<and>
   collapse_spaces (dot_pauses (passes_before_dots (asc ''<b> </b>''))) = asc '' '' \<and>
   isspace 32 \<and>
   fst (process_text_for_tts ((init True test_config)\<lparr>speech_rate := neutral_speech_rate\<rparr>)
          test_world (PyStr (asc ''<b> </b>''))) = Inr []"
proof -
  have pre: "collapse_spaces (dot_pauses (passes_before_dots (asc ''<b> </b>''))) = asc '' ''"
    by (simp add: pass_defs pattern_defs)
  note pre' = pre [unfolded asc_def, simplified]
  show ?thesis
    using neutral_rate_empty_result
        [where self = "(init True test_config)\<lparr>speech_rate := neutral_speech_rate\<rparr>"
           and s = "asc ''<b> </b>''" and w = test_world]
    by (simp add: pre' init_def neutral_speech_rate_def asc_def isspace_def)
qed



text \<open>
  C2, as stated, fails. The vendor call raises, \<open>process_text\<close> returns failure, and
  the audio field of the note, which held \<open>[sound:old.mp3]\<close>, is empty afterwards:
  \<open>clear_audio_field\<close> runs before the audio is created.
\<close>

theorem failed_request_counterexample:
  "fst (process_text (init True test_config) (test_world\<lparr>vendor := (\<lambda>r. None)\<rparr>)) = False \<and>
   ed_note (test_world\<lparr>vendor := (\<lambda>r. None)\<rparr>) =
     Some [(asc ''Front'', asc ''hus''), (asc ''Back'', asc ''et hus - huset''),
           (asc ''Audio'', asc ''[sound:old.mp3]'')] \<and>
   ed_note (snd (process_text (init True test_config) (test_world\<lparr>vendor := (\<lambda>r. None)\<rparr>))) =
     Some [(asc ''Front'', asc ''hus''), (asc ''Back'', asc ''et hus - huset''), (asc ''Audio'', [])]"
proof -
  have np: "normalize_passes (asc ''et hus - huset'') = asc ''et hus, huset''"
    by (simp add: pass_defs pattern_defs)
  note np' = np [unfolded asc_def, simplified]
  show ?thesis
    by (simp add: np' world_defs example_defs strip_def isspace_def asc_def)
qed

text \<open>
  C2, amended. When \<open>process_text\<close> returns failure (and reloading the note in the
  editor does not raise), the note is exactly as before if the failure is found before
  the clearing step (processor disabled, library missing, API key missing, field empty
  or too long); otherwise it is the note after \<open>clear_audio_field\<close>, which differs
  from the note before at most in the first of the fields Audio, audio, Sound, sound
  that the note has, now empty.
\<close>

theorem failed_request_note:
  assumes "\<not> fst (process_text self w)" and "\<not> loadNote_raises w"
  shows "(if \<not> enabled self \<or> \<not> speechify_available w \<or> api_key self = [] \<or>
             api_key self = asc ''your-api-key-here'' \<or> strip (get_field_content w) = [] \<or>
             int (length (get_field_content w)) > max_chars self
          then ed_note (snd (process_text self w)) = ed_note w
          else ed_note (snd (process_text self w)) = ed_note (clear_audio_field w)) \<and>
         ed_note (clear_audio_field w) =
           map_option (\<lambda>n. case first_audio_field n of None \<Rightarrow> n | Some f \<Rightarrow> set_field f [] n)
             (ed_note w)"
proof -
  let ?w0 = "clear_audio_field w"
  let ?t = "get_field_content w"
  obtain ap w1 where c: "create_audio_file self ?w0 ?t = (ap, w1)"
    by (cases "create_audio_file self ?w0 ?t") auto
  have n1: "ed_note w1 = ed_note ?w0" using ed_note_create_audio_file [of self ?w0 ?t] c by simp
  have l1: "\<not> loadNote_raises w1"
    using loadNote_raises_create_audio_file [of self ?w0 ?t] c assms(2) by simp
  have strip_Nil': "strip [] = []" by (simp add: strip_def)
  have 1: "ed_note (snd (process_text self w)) =
      (if \<not> enabled self \<or> \<not> speechify_available w \<or> api_key self = [] \<or>
             api_key self = asc ''your-api-key-here'' \<or> strip ?t = [] \<or>
             int (length ?t) > max_chars self
       then ed_note w else ed_note ?w0)"
  proof (cases ap)
    case None
    then show ?thesis
      using c n1 strip_Nil' by (auto simp: process_text_def Let_def)
  next
    case (Some p)
    obtain ok w2 where a: "add_audio_to_note w1 p = (ok, w2)"
      by (cases "add_audio_to_note w1 p") auto
    have l2: "\<not> loadNote_raises w2"
      using loadNote_raises_add_audio_to_note [of w1 p] a l1 by simp
    show ?thesis
    proof (cases ok)
      case True
      then have "fst (process_text self w) \<or> \<not> enabled self \<or> \<not> speechify_available w \<or>
          api_key self = [] \<or> api_key self = asc ''your-api-key-here'' \<or> strip ?t = [] \<or>
          int (length ?t) > max_chars self"
        using c a Some l2 strip_Nil' by (auto simp: process_text_def Let_def)
      with assms(1) show ?thesis using strip_Nil' by (auto simp: process_text_def Let_def)
    next
      case False
      then have "ed_note w2 = ed_note w1" using add_audio_to_note_fails [of w1 p] a by simp
      with False show ?thesis
        using c a Some n1 strip_Nil' by (auto simp: process_text_def Let_def)
    qed
  qed
  have 2: "ed_note ?w0 =
      map_option (\<lambda>n. case first_audio_field n of None \<Rightarrow> n | Some f \<Rightarrow> set_field f [] n) (ed_note w)"
    by (simp add: clear_audio_field_def split: option.splits)
  from 1 2 show ?thesis by (simp split: if_splits)
qed

theorem failed_request_note_witness:
  "\<not> fst (process_text (init True test_config) (test_world\<lparr>vendor := (\<lambda>r. None)\<rparr>)) \<and>
   \<not> loadNote_raises (test_world\<lparr>vendor := (\<lambda>r. None)\<rparr>) \<and>
   ed_note (snd (process_text (init True test_config) (test_world\<lparr>vendor := (\<lambda>r. None)\<rparr>))) =
     ed_note (clear_audio_field (test_world\<lparr>vendor := (\<lambda>r. None)\<rparr>))"
proof -
  have np: "normalize_passes (asc ''et hus - huset'') = asc ''et hus, huset''"
    by (simp add: pass_defs pattern_defs)
  note np' = np [unfolded asc_def, simplified]
  show ?thesis
    using failed_request_note [of "init True test_config" "test_world\<lparr>vendor := (\<lambda>r. None)\<rparr>"]
    by (simp add: np' world_defs example_defs strip_def isspace_def asc_def)
qed

text \<open>
  C9. The code breaks the claim: when a temporary audio file was created and attaching
  it to the note fails, \<open>process_text\<close> returns failure and the file is still there.
  Only the branch of success removes it.
\<close>

theorem temp_file_left_behind:
  assumes "enabled self" "speechify_available w"
    and "api_key self \<noteq> []" "api_key self \<noteq> asc ''your-api-key-here''"
    and "strip (get_field_content w) \<noteq> []"
    and "int (length (get_field_content w)) \<le> max_chars self"
    and "fst (create_audio_file self (clear_audio_field w) (get_field_content w)) = Some p"
    and "\<not> fst (add_audio_to_note
                 (snd (create_audio_file self (clear_audio_field w) (get_field_content w))) p)"
  shows "\<not> fst (process_text self w) \<and> files (snd (process_text self w)) p \<noteq> None"
proof -
  obtain w1 where c: "create_audio_file self (clear_audio_field w) (get_field_content w) = (Some p, w1)"
    using assms(7) by (cases "create_audio_file self (clear_audio_field w) (get_field_content w)") auto
  obtain w2 where a: "add_audio_to_note w1 p = (False, w2)"
    using assms(8) c by (cases "add_audio_to_note w1 p") auto
  have ne: "get_field_content w \<noteq> []" using assms(5) by (auto simp: strip_def)
  have pt: "process_text self w = (False, showCritical ''Failed to add audio to note'' w2)"
    using assms(1-6) ne by (simp add: process_text_def Let_def c a)
  have "files w2 p = files w1 p" using add_audio_to_note_fails [of w1 p] a by simp
  moreover have "files w1 p \<noteq> None" using files_create_audio_file [OF assms(7)] c by simp
  ultimately show ?thesis by (simp add: pt)
qed

theorem temp_file_left_behind_witness:
  "\<not> fst (process_text (init True test_config)
       (test_world\<lparr>ed_note := Some [(asc ''Front'', asc ''hus''), (asc ''Back'', asc ''et hus'')]\<rparr>)) \<and>
   files (snd (process_text (init True test_config)
       (test_world\<lparr>ed_note := Some [(asc ''Front'', asc ''hus''), (asc ''Back'', asc ''et hus'')]\<rparr>)))
     (asc ''/tmp'', asc ''inferanki-speechify-tts-250101-120000.mp3'') \<noteq> None"
proof -
  have np: "normalize_passes (asc ''et hus'') = asc ''et hus''"
    by (simp add: pass_defs pattern_defs)
  note np' = np [unfolded asc_def, simplified]
  show ?thesis
    using temp_file_left_behind [of "init True test_config"
      "test_world\<lparr>ed_note := Some [(asc ''Front'', asc ''hus''), (asc ''Back'', asc ''et hus'')]\<rparr>"
      "(asc ''/tmp'', asc ''inferanki-speechify-tts-250101-120000.mp3'')"]
    by (simp add: np' world_defs example_defs strip_def isspace_def asc_def)
qed

text \<open>
  C4. In the text that reaches the dot passes of \<open>process_text_for_tts\<close>, a run of \<open>n\<close> dots
  that is maximal (no dot before it, no dot behind it) becomes the long pause when
  \<open>n\<close> is three or more, the short pause when \<open>n\<close> is two, and stays a single dot when
  \<open>n\<close> is one; the text before the run and the text behind it are rewritten as if they
  stood alone, so no pattern takes a part of the run. The result of the passes is the
  whitespace pass applied to this text.
\<close>

theorem dot_runs_classified:
  assumes "pre = [] \<or> last pre \<noteq> 46" and "post = [] \<or> hd post \<noteq> 46" and "0 < n"
  shows "dot_pauses (pre @ replicate n 46 @ post) =
           dot_pauses pre @ pause_for_run n @ dot_pauses post \<and>
         (passes_before_dots s = pre @ replicate n 46 @ post \<longrightarrow>
            normalize_passes s =
              clean_whitespace (dot_pauses pre @ pause_for_run n @ dot_pauses post))"
proof -
  let ?M = "dot_placeholders (replicate n 46)"
  have m: "?M = (if 3 \<le> n then LONG_PAUSE else if n = 2 then MED_PAUSE else [46])"
    using assms(3) by (rule run_placeholders)
  then have "?M = LONG_PAUSE \<or> ?M = MED_PAUSE \<or> ?M = [46]" by presburger
  then have "resolve_placeholders (dot_placeholders pre @ ?M @ dot_placeholders post) =
      resolve_placeholders (dot_placeholders pre) @ resolve_placeholders ?M @
      resolve_placeholders (dot_placeholders post)"
    by (rule resolve_split)
  moreover have "resolve_placeholders ?M = pause_for_run n"
  proof -
    from assms(3) consider "3 \<le> n" | "n = 2" | "n = 1" by linarith
    then show ?thesis unfolding m by cases (simp_all add: resolve_values pause_for_run_def)
  qed
  ultimately have "dot_pauses (pre @ replicate n 46 @ post) =
      dot_pauses pre @ pause_for_run n @ dot_pauses post"
    unfolding dot_pauses_def dot_placeholders_split [OF assms(1,2)] by simp
  then show ?thesis by (simp add: normalize_passes_def)
qed

theorem dot_runs_classified_witness:
  "last (asc ''a.b'') \<noteq> 46 \<and> hd (asc ''c..d'') \<noteq> 46 \<and>
   dot_pauses (asc ''a.b'' @ replicate 5 46 @ asc ''c..d'') =
     asc ''a.b'' @ asc '' ... '' @ asc ''c .. d'' \<and>
   passes_before_dots (asc ''a.b.....c..d'') = asc ''a.b'' @ replicate 5 46 @ asc ''c..d'' \<and>
   normalize_passes (asc ''a.b.....c..d'') = asc ''a.b ... c .. d''"
proof -
  have r: "replicate 5 x = [x, x, x, x, x]" for x :: nat by (simp add: numeral_eq_Suc)
  have "passes_before_dots (asc ''a.b.....c..d'') = asc ''a.b.....c..d''"
    by (simp add: pass_defs pattern_defs)
  then have p: "passes_before_dots (asc ''a.b.....c..d'') = asc ''a.b'' @ replicate 5 46 @ asc ''c..d''"
    by (simp add: r asc_def)
  have e: "dot_pauses (asc ''a.b'') = asc ''a.b''" "dot_pauses (asc ''c..d'') = asc ''c .. d''"
    by (simp_all add: pass_defs pattern_defs)
  have c: "clean_whitespace (asc ''a.b'' @ asc '' ... '' @ asc ''c .. d'') = asc ''a.b ... c .. d''"
    by (simp add: pass_defs pattern_defs)
  have h: "last (asc ''a.b'') \<noteq> 46" "hd (asc ''c..d'') \<noteq> 46" by (simp_all add: asc_def)
  show ?thesis
    using dot_runs_classified [of "asc ''a.b''" "asc ''c..d''" 5 "asc ''a.b.....c..d''"] h p
    by (simp add: e c pause_for_run_def)
qed

text \<open>
  C7, as stated, fails. In \<open>a - - b\<close> both hyphens have whitespace on both sides; the
  match of the first hyphen takes the space between them, and the second hyphen stays:
  the result is \<open>a, - b\<close>. In \<open>x -<b> y\<close> the hyphen has no whitespace behind it, but the
  tag is removed before the dash pass, and the hyphen is converted.
\<close>

theorem spaced_hyphen_counterexample:
  "dashes (asc ''a - - b'') = asc ''a, - b'' \<and>
   fst (process_text_for_tts ((init True test_config)\<lparr>speech_rate := neutral_speech_rate\<rparr>)
         test_world (PyStr (asc ''a - - b''))) = Inr (asc ''a, - b'') \<and>
   fst (process_text_for_tts ((init True test_config)\<lparr>speech_rate := neutral_speech_rate\<rparr>)
         test_world (PyStr (asc ''x -<b> y''))) = Inr (asc ''x, y'')"
  by (simp add: example_defs pass_defs pattern_defs)

text \<open>
  C7, amended, for the text that reaches the dash pass. A hyphen between two maximal
  runs of whitespace is converted, with both runs, to a comma and a space, when the
  text before the first run is empty or ends neither with whitespace nor with a
  whitespace character followed by a hyphen (the match of such a hyphen takes the
  whitespace). A hyphen that has no whitespace directly before it or no whitespace
  directly behind it stays. In both cases the text before and the text behind are
  rewritten as if they stood alone.
\<close>

theorem spaced_hyphen_converted:
  "((pre = [] \<or> (\<not> isspace (last pre) \<and> \<not> dash_pending pre)) \<and>
    ws1 \<noteq> [] \<and> (\<forall>c\<in>set ws1. isspace c) \<and> ws2 \<noteq> [] \<and> (\<forall>c\<in>set ws2. isspace c) \<and>
    (post = [] \<or> \<not> isspace (hd post)) \<longrightarrow>
      dashes (pre @ ws1 @ [45] @ ws2 @ post) = dashes pre @ asc '', '' @ dashes post) \<and>
   ((pre = [] \<or> \<not> isspace (last pre)) \<or> (post = [] \<or> \<not> isspace (hd post)) \<longrightarrow>
      dashes (pre @ [45] @ post) = dashes pre @ [45] @ dashes post)"
  using dashes_spaced [of pre ws1 ws2 post] dashes_hyphen [of pre post] by blast

theorem spaced_hyphen_converted_witness:
  "\<not> isspace (last (asc ''et hus'')) \<and> \<not> dash_pending (asc ''et hus'') \<and> isspace 32 \<and> isspace 9 \<and>
   \<not> isspace (hd (asc ''PC-en'')) \<and>
   dashes (asc ''et hus'' @ [32, 9] @ [45] @ [32] @ asc ''PC-en'') = asc ''et hus, PC-en'' \<and>
   dashes (asc ''PC'' @ [45] @ asc ''en'') = asc ''PC-en'' \<and>
   dashes (asc ''a '' @ [45] @ asc ''b'') = asc ''a -b''"
proof -
  have e: "dashes (asc ''et hus'') = asc ''et hus''" "dashes (asc ''PC-en'') = asc ''PC-en''"
    "dashes (asc ''PC'') = asc ''PC''" "dashes (asc ''en'') = asc ''en''"
    "dashes (asc ''a '') = asc ''a ''" "dashes (asc ''b'') = asc ''b''"
    by (simp_all add: dashes_def pattern_defs)
  have h: "\<not> isspace (last (asc ''et hus''))" "\<not> dash_pending (asc ''et hus'')" "isspace 32" "isspace 9"
    "\<not> isspace (hd (asc ''PC-en''))" "\<not> isspace (last (asc ''PC''))" "\<not> isspace (hd (asc ''b''))"
    by (simp_all add: asc_def isspace_def dash_pending_def)
  note e' = e [unfolded asc_def, simplified]
  show ?thesis
    using spaced_hyphen_converted [of "asc ''et hus''" "[32, 9]" "[32]" "asc ''PC-en''"]
      spaced_hyphen_converted [of "asc ''PC''" _ _ "asc ''en''"]
      spaced_hyphen_converted [of "asc ''a ''" _ _ "asc ''b''"] h
    by (simp add: e' asc_simps)
qed

end
